theory Spec2Isabelle
  imports Complex_Main "HOL-Library.Log_Nat" "HOL-Library.Sublist"
begin

section \<open>Python values used by the workers\<close>

text \<open>
  The three background workers of ProView (\<^verbatim>\<open>FileOperationWorker\<close> and \<^verbatim>\<open>SearchWorker\<close>
  in \<^verbatim>\<open>FileView.py\<close>, \<^verbatim>\<open>DuplicateFinderWorker\<close> in \<^verbatim>\<open>duplicate_finder.py\<close>) are embedded
  as HOL functions. A signal emission becomes an element of an event list, in the order
  of emission. What the operating system answers (does a path exist, what does
  \<^verbatim>\<open>os.walk\<close> yield) is an input of the model. Strings are byte lists.
\<close>

datatype py_error = ZeroDivisionError

text \<open>\<^verbatim>\<open>str(n)\<close> for a non-negative integer: its decimal digits.\<close>

definition digit_char :: "nat \<Rightarrow> char" where
  "digit_char d = ''0123456789'' ! d"

fun str_nat :: "nat \<Rightarrow> string" where
  "str_nat n = (if n < 10 then [digit_char n] else str_nat (n div 10) @ [digit_char (n mod 10)])"

declare str_nat.simps [simp del]

text \<open>\<^verbatim>\<open>s.lower()\<close> on ASCII letters, and the substring test \<^verbatim>\<open>q in s\<close>.\<close>

definition lower_char :: "char \<Rightarrow> char" where
  "lower_char c = (if 65 \<le> (of_char c :: nat) \<and> (of_char c :: nat) \<le> 90
                   then char_of ((of_char c :: nat) + 32) else c)"

definition lower :: "string \<Rightarrow> string" where
  "lower s = map lower_char s"

fun contains :: "string \<Rightarrow> string \<Rightarrow> bool" where
  "contains q [] = (q = [])"
| "contains q (c # cs) = (prefix q (c # cs) \<or> contains q cs)"

subsection \<open>The functions of \<^verbatim>\<open>os.path\<close> the workers call (POSIX flavour, separator \<^verbatim>\<open>/\<close>)\<close>

definition sep :: char where
  "sep = CHR ''/''"

text \<open>\<^verbatim>\<open>os.path.join(a, b)\<close>: an absolute \<^verbatim>\<open>b\<close> replaces \<^verbatim>\<open>a\<close>.\<close>

definition path_join :: "string \<Rightarrow> string \<Rightarrow> string" where
  "path_join a b =
     (if prefix [sep] b then b
      else if a = [] \<or> last a = sep then a @ b
      else a @ [sep] @ b)"

text \<open>\<^verbatim>\<open>os.path.basename(p)\<close>: what follows the last separator.\<close>

definition basename :: "string \<Rightarrow> string" where
  "basename p = rev (takeWhile (\<lambda>c. c \<noteq> sep) (rev p))"

text \<open>
  \<^verbatim>\<open>os.path.splitext(p)\<close>: the extension starts at the last dot of the base name, unless
  only dots precede it there.
\<close>

definition splitext :: "string \<Rightarrow> string \<times> string" where
  "splitext p =
     (let b = basename p;
          e = rev (takeWhile (\<lambda>c. c \<noteq> CHR ''.'') (rev b));
          stem = take (length b - length e - 1) b
      in if CHR ''.'' \<in> set b \<and> filter (\<lambda>c. c \<noteq> CHR ''.'') stem \<noteq> []
         then (take (length p - length e - 1) p, CHR ''.'' # e)
         else (p, []))"

text \<open>\<^verbatim>\<open>p.split('/')\<close> and \<^verbatim>\<open>'/'.join(comps)\<close>.\<close>

fun split_sep :: "string \<Rightarrow> string list" where
  "split_sep [] = [[]]"
| "split_sep (c # cs) =
     (if c = sep then [] # split_sep cs
      else (case split_sep cs of [] \<Rightarrow> [[c]] | w # ws \<Rightarrow> (c # w) # ws))"

fun join_sep :: "string list \<Rightarrow> string" where
  "join_sep [] = []"
| "join_sep [w] = w"
| "join_sep (w # ws) = w @ [sep] @ join_sep ws"

text \<open>
  \<^verbatim>\<open>os.path.normpath(p)\<close>: one step of its loop over the components, then the function.
  \<^verbatim>\<open>initial_slashes\<close> is 0, 1 or 2.
\<close>

definition norm_step :: "nat \<Rightarrow> string list \<Rightarrow> string \<Rightarrow> string list" where
  "norm_step initial_slashes new_comps cmp =
     (if cmp = [] \<or> cmp = ''.'' then new_comps
      else if cmp \<noteq> ''..'' \<or> (initial_slashes = 0 \<and> new_comps = [])
              \<or> (new_comps \<noteq> [] \<and> last new_comps = ''..'')
           then new_comps @ [cmp]
      else if new_comps \<noteq> [] then butlast new_comps
      else new_comps)"

definition normpath :: "string \<Rightarrow> string" where
  "normpath p =
     (if p = [] then ''.''
      else
        let initial_slashes =
              (if prefix [sep] p
               then (if prefix [sep, sep] p \<and> \<not> prefix [sep, sep, sep] p then 2 else 1)
               else (0::nat));
            comps = fold (\<lambda>cmp new_comps. norm_step initial_slashes new_comps cmp)
                      (split_sep p) [];
            path = replicate initial_slashes sep @ join_sep comps
        in if path = [] then ''.'' else path)"

subsection \<open>Floating point: \<^verbatim>\<open>int((a / b) * 100)\<close>\<close>

text \<open>
  Python's \<^verbatim>\<open>/\<close> on integers and \<^verbatim>\<open>*\<close> on floats round the exact result to the nearest
  double, ties to even. A finite double is a rational \<open>m * 2 ^ e\<close> with \<open>m\<close> below
  \<open>2 ^ 53\<close>; the values here lie between \<open>1 / len\<close> and 100, inside the normal range, so
  the exponent is unbounded in the model.
\<close>

definition rne :: "rat \<Rightarrow> int" where
  "rne x = (let f = \<lfloor>x\<rfloor>; r = x - of_int f
            in if r < 1 / 2 then f else if 1 / 2 < r then f + 1
               else if even f then f else f + 1)"

definition expo :: "rat \<Rightarrow> int" where
  "expo x = (case quotient_of x of (n, d) \<Rightarrow>
               let k = bitlen n - bitlen d
               in if 2 powi k \<le> x then k - 52 else k - 53)"

definition rd :: "rat \<Rightarrow> rat" where
  "rd x = (if x \<le> 0 then 0
           else of_int (rne (x / 2 powi expo x)) * 2 powi expo x)"

definition percent_value :: "nat \<Rightarrow> nat \<Rightarrow> int" where
  "percent_value a b = \<lfloor>rd (rd (of_nat a / of_nat b) * 100)\<rfloor>"

definition percent :: "nat \<Rightarrow> nat \<Rightarrow> py_error + int" where
  "percent a b = (if b = 0 then Inl ZeroDivisionError else Inr (percent_value a b))"

subsection \<open>Cooperative cancellation\<close>

text \<open>
  \<^verbatim>\<open>cancel()\<close> sets \<^verbatim>\<open>_is_cancelled\<close> from another thread and nothing resets it. A run
  reads the flag at its polls, which the model counts: \<open>Some k\<close> says that the first
  \<open>k\<close> polls read False and every later one True, \<open>None\<close> that no poll reads True.
\<close>

type_synonym cancel = "nat option"

definition cancelled :: "cancel \<Rightarrow> nat \<Rightarrow> bool" where
  "cancelled c n = (case c of None \<Rightarrow> False | Some k \<Rightarrow> k \<le> n)"

section \<open>\<^verbatim>\<open>FileOperationWorker\<close> (FileView.py)\<close>

text \<open>
  The file system the worker acts on: the paths that exist, each a file or a directory,
  looked up by their spelling, and the source paths on which \<^verbatim>\<open>shutil\<close> raises, each
  with the text of its exception. A table lists an object under every spelling the run
  asks for.
\<close>

datatype node = File | Dir

record filesystem =
  nodes :: "(string \<times> node) list"
  failing :: "(string \<times> string) list"

definition path_exists :: "filesystem \<Rightarrow> string \<Rightarrow> bool" where
  "path_exists fs p = (map_of (nodes fs) p \<noteq> None)"

definition path_isdir :: "filesystem \<Rightarrow> string \<Rightarrow> bool" where
  "path_isdir fs p = (map_of (nodes fs) p = Some Dir)"

text \<open>
  \<^verbatim>\<open>shutil.copy2\<close>, \<^verbatim>\<open>shutil.copytree(dirs_exist_ok=False)\<close> and \<^verbatim>\<open>shutil.move\<close>: \<open>Inl\<close> is
  the message of the exception raised, \<open>Inr\<close> the file system afterwards. A tree is the
  directory and every path below it.
\<close>

definition relocate :: "string \<Rightarrow> string \<Rightarrow> string \<Rightarrow> string option" where
  "relocate src dst p =
     (if p = src \<or> prefix (src @ [sep]) p then Some (dst @ drop (length src) p) else None)"

definition shutil_copy2 :: "string \<Rightarrow> string \<Rightarrow> filesystem \<Rightarrow> string + filesystem" where
  "shutil_copy2 src dst fs =
     (case map_of (failing fs) src of
        Some msg \<Rightarrow> Inl msg
      | None \<Rightarrow> Inr (fs\<lparr>nodes := nodes fs @ [(dst, File)]\<rparr>))"

definition shutil_copytree :: "string \<Rightarrow> string \<Rightarrow> filesystem \<Rightarrow> string + filesystem" where
  "shutil_copytree src dst fs =
     (case map_of (failing fs) src of
        Some msg \<Rightarrow> Inl msg
      | None \<Rightarrow>
          if path_exists fs dst then Inl (''[Errno 17] File exists: '' @ dst)
          else Inr (fs\<lparr>nodes := nodes fs @
                 concat (map (\<lambda>(p, k). case relocate src dst p of
                                          None \<Rightarrow> [] | Some q \<Rightarrow> [(q, k)]) (nodes fs))\<rparr>))"

definition shutil_move :: "string \<Rightarrow> string \<Rightarrow> filesystem \<Rightarrow> string + filesystem" where
  "shutil_move src dst fs =
     (case map_of (failing fs) src of
        Some msg \<Rightarrow> Inl msg
      | None \<Rightarrow>
          Inr (fs\<lparr>nodes := map (\<lambda>(p, k). case relocate src dst p of
                                            None \<Rightarrow> (p, k) | Some q \<Rightarrow> (q, k)) (nodes fs)\<rparr>))"

text \<open>
  \<^verbatim>\<open>self.operation\<close> is the string \<^verbatim>\<open>'copy'\<close> or \<^verbatim>\<open>'move'\<close> (the two values the window
  passes); \<^verbatim>\<open>op_name\<close> is that string and \<^verbatim>\<open>op_title\<close> its \<^verbatim>\<open>.title()\<close>.
\<close>

datatype operation = Copy | Move

fun op_name :: "operation \<Rightarrow> string" where
  "op_name Copy = ''copy''"
| "op_name Move = ''move''"

fun op_title :: "operation \<Rightarrow> string" where
  "op_title Copy = ''Copy''"
| "op_title Move = ''Move''"

text \<open>The signals of \<^verbatim>\<open>FileOperationSignals\<close>, and the calls into \<^verbatim>\<open>shutil\<close>.\<close>

datatype fileop_event =
    FProgress int
  | FResult nat "string list" operation
  | FError string string
  | FFinished

datatype shutil_call =
    CopyTree string string
  | Copy2 string string
  | MoveCall string string

record fileop_state =
  filesys :: filesystem
  errors :: "string list"
  success_count :: nat
  events :: "fileop_event list"
  calls :: "shutil_call list"
  polls :: nat
  raised :: "py_error option"

text \<open>
  Lines 527 to 536: the name tried when \<^verbatim>\<open>counter\<close> is \<open>n\<close>, and the loop
  \<^verbatim>\<open>while os.path.exists(destination_path)\<close>.
\<close>

definition conflict_name :: "string \<Rightarrow> nat \<Rightarrow> string" where
  "conflict_name filename counter =
     (case splitext filename of (name, ext) \<Rightarrow>
        if ext \<noteq> [] then name @ ''_copy_'' @ str_nat counter @ ext
        else filename @ ''_copy_'' @ str_nat counter)"

lemma digit_char_inj: "a < 10 \<Longrightarrow> b < 10 \<Longrightarrow> digit_char a = digit_char b \<Longrightarrow> a = b"
proof -
  assume a: "a < 10" and b: "b < 10" and eq: "digit_char a = digit_char b"
  have d: "distinct ''0123456789''" by simp
  from a b have "a < length ''0123456789''" "b < length ''0123456789''" by simp_all
  with d eq show "a = b" unfolding digit_char_def by (simp only: nth_eq_iff_index_eq)
qed

lemma str_nat_nonempty: "str_nat n \<noteq> []"
  by (subst str_nat.simps) simp

lemma str_nat_inj: "str_nat m = str_nat n \<Longrightarrow> m = n"
proof (induction m arbitrary: n rule: str_nat.induct)
  case (1 m)
  show ?case
  proof (cases "m < 10")
    case True
    then have m: "str_nat m = [digit_char m]" by (subst str_nat.simps) simp
    show ?thesis
    proof (cases "n < 10")
      case n: True
      then have "str_nat n = [digit_char n]" by (subst str_nat.simps) simp
      with m "1.prems" have "digit_char m = digit_char n" by simp
      with True n show ?thesis by (rule digit_char_inj)
    next
      case False
      then have "str_nat n = str_nat (n div 10) @ [digit_char (n mod 10)]"
        by (subst str_nat.simps) simp
      with m "1.prems" have "str_nat (n div 10) = []" by simp
      with str_nat_nonempty show ?thesis by blast
    qed
  next
    case False
    then have m: "str_nat m = str_nat (m div 10) @ [digit_char (m mod 10)]"
      by (subst str_nat.simps) simp
    show ?thesis
    proof (cases "n < 10")
      case True
      then have "str_nat n = [digit_char n]" by (subst str_nat.simps) simp
      with m "1.prems" have "str_nat (m div 10) = []" by simp
      with str_nat_nonempty show ?thesis by blast
    next
      case n: False
      then have "str_nat n = str_nat (n div 10) @ [digit_char (n mod 10)]"
        by (subst str_nat.simps) simp
      with m "1.prems" have eq: "str_nat (m div 10) = str_nat (n div 10)"
        and dg: "digit_char (m mod 10) = digit_char (n mod 10)" by simp_all
      from "1.IH" [OF False eq] have "m div 10 = n div 10" .
      moreover have "m mod 10 = n mod 10" using dg by (intro digit_char_inj) simp_all
      ultimately show ?thesis by (metis div_mult_mod_eq)
    qed
  qed
qed

lemma conflict_name_shape:
  "\<exists>A B. \<forall>k. conflict_name f k = A @ ''_copy_'' @ str_nat k @ B"
proof (cases "splitext f")
  case (Pair name ext)
  show ?thesis
  proof (cases "ext = []")
    case True
    with Pair have "\<forall>k. conflict_name f k = f @ ''_copy_'' @ str_nat k @ []"
      by (simp add: conflict_name_def)
    then show ?thesis by blast
  next
    case False
    with Pair have "\<forall>k. conflict_name f k = name @ ''_copy_'' @ str_nat k @ ext"
      by (simp add: conflict_name_def)
    then show ?thesis by blast
  qed
qed

lemma conflict_path_shape:
  "\<exists>A B. \<forall>k. path_join d (conflict_name f k) = A @ ''_copy_'' @ str_nat k @ B"
proof -
  obtain A B where ab: "\<forall>k. conflict_name f k = A @ ''_copy_'' @ str_nat k @ B"
    using conflict_name_shape by blast
  have pre: "prefix [sep] (A @ CHR ''_'' # t) = prefix [sep] A" for t
    by (cases A) (simp_all add: sep_def)
  consider "prefix [sep] A" | "\<not> prefix [sep] A" "d = [] \<or> last d = sep"
    | "\<not> prefix [sep] A" "\<not> (d = [] \<or> last d = sep)" by blast
  then show ?thesis
  proof cases
    case 1
    then have "\<forall>k. path_join d (conflict_name f k) = A @ ''_copy_'' @ str_nat k @ B"
      by (simp add: path_join_def ab pre)
    then show ?thesis by blast
  next
    case 2
    then have "\<forall>k. path_join d (conflict_name f k) = (d @ A) @ ''_copy_'' @ str_nat k @ B"
      by (simp add: path_join_def ab pre)
    then show ?thesis by blast
  next
    case 3
    then have "\<forall>k. path_join d (conflict_name f k) = (d @ [sep] @ A) @ ''_copy_'' @ str_nat k @ B"
      by (simp add: path_join_def ab pre)
    then show ?thesis by blast
  qed
qed

lemma conflict_path_inj: "inj (\<lambda>k. path_join d (conflict_name f k))"
proof (rule injI)
  fix j k
  assume eq: "path_join d (conflict_name f j) = path_join d (conflict_name f k)"
  obtain A B where ab: "\<forall>k. path_join d (conflict_name f k) = A @ ''_copy_'' @ str_nat k @ B"
    using conflict_path_shape by blast
  from eq have "str_nat j @ B = str_nat k @ B" by (simp add: ab)
  then have "str_nat j = str_nat k" by simp
  then show "j = k" by (rule str_nat_inj)
qed

lemma finite_conflicts: "finite {k. path_exists fs (path_join d (conflict_name f k))}"
proof -
  have "{k. path_exists fs (path_join d (conflict_name f k))}
          = (\<lambda>k. path_join d (conflict_name f k)) -` (fst ` set (nodes fs))"
    by (auto simp: path_exists_def map_of_eq_None_iff)
  moreover have "finite ((\<lambda>k. path_join d (conflict_name f k)) -` (fst ` set (nodes fs)))"
    by (intro finite_vimageI conflict_path_inj) simp
  ultimately show ?thesis by simp
qed

function resolve_conflict :: "filesystem \<Rightarrow> string \<Rightarrow> string \<Rightarrow> string \<Rightarrow> nat \<Rightarrow> string" where
  "resolve_conflict fs destination_dir filename destination_path counter =
     (if path_exists fs destination_path
      then resolve_conflict fs destination_dir filename
             (path_join destination_dir (conflict_name filename counter)) (counter + 1)
      else destination_path)"
  by pat_completeness auto
termination
proof (relation "measure (\<lambda>(fs, d, f, dp, c).
          2 * card {k. c \<le> k \<and> path_exists fs (path_join d (conflict_name f k))}
          + (if path_exists fs dp then 1 else 0))", goal_cases)
  case 1
  show ?case by simp
next
  case (2 fs d f dp c)
  let ?P = "\<lambda>k. path_exists fs (path_join d (conflict_name f k))"
  have fin: "finite {k. c \<le> k \<and> ?P k}"
    by (rule finite_subset [OF _ finite_conflicts [of fs d f]]) auto
  have sub: "{k. c + 1 \<le> k \<and> ?P k} \<subseteq> {k. c \<le> k \<and> ?P k}" by auto
  show ?case
  proof (cases "?P c")
    case True
    then have "c \<in> {k. c \<le> k \<and> ?P k}" and "c \<notin> {k. c + 1 \<le> k \<and> ?P k}"
      by simp_all
    with sub have "{k. c + 1 \<le> k \<and> ?P k} \<subset> {k. c \<le> k \<and> ?P k}" by blast
    then have "card {k. c + 1 \<le> k \<and> ?P k} < card {k. c \<le> k \<and> ?P k}"
      using fin by (intro psubset_card_mono)
    with 2 True show ?thesis by simp
  next
    case False
    have "card {k. c + 1 \<le> k \<and> ?P k} \<le> card {k. c \<le> k \<and> ?P k}"
      using fin sub by (intro card_mono)
    with 2 False show ?thesis by simp
  qed
qed

declare resolve_conflict.simps [simp del]

text \<open>
  Emitting the progress of item \<open>i\<close>: lines 557 and 558, after the \<^verbatim>\<open>try\<close>, where a
  division by zero leaves \<^verbatim>\<open>run\<close>; and lines 506 to 508 and 518 to 520, inside the
  \<^verbatim>\<open>try\<close>, where \<^verbatim>\<open>except Exception\<close> records it and the lines after the \<^verbatim>\<open>try\<close> follow.
\<close>

definition emit_progress :: "nat \<Rightarrow> nat \<Rightarrow> fileop_state \<Rightarrow> fileop_state" where
  "emit_progress i total_files st =
     (case percent (i + 1) total_files of
        Inl e \<Rightarrow> st\<lparr>raised := Some e\<rparr>
      | Inr progress_value \<Rightarrow> st\<lparr>events := events st @ [FProgress progress_value]\<rparr>)"

definition progress_in_try :: "string \<Rightarrow> nat \<Rightarrow> nat \<Rightarrow> fileop_state \<Rightarrow> fileop_state" where
  "progress_in_try source_path i total_files st =
     (case percent (i + 1) total_files of
        Inl e \<Rightarrow> emit_progress i total_files
                   (st\<lparr>errors := errors st @ [basename source_path @ '': division by zero'']\<rparr>)
      | Inr progress_value \<Rightarrow> st\<lparr>events := events st @ [FProgress progress_value]\<rparr>)"

text \<open>
  The body of the loop over \<^verbatim>\<open>self.source_paths\<close> for one item (lines 503 to 558). The
  test of lines 512 to 515 is \<^verbatim>\<open>self_or_subdirectory\<close>; \<^verbatim>\<open>os.path.normpath\<close> raises nothing
  on a string, so its \<^verbatim>\<open>except (ValueError, OSError)\<close> is never entered. An exception of
  \<^verbatim>\<open>shutil\<close> is caught at line 551 and recorded.
\<close>

definition self_or_subdirectory :: "string \<Rightarrow> string \<Rightarrow> bool" where
  "self_or_subdirectory source_path destination_dir =
     (let norm_source = normpath source_path; norm_dest = normpath destination_dir
      in norm_source = norm_dest \<or> prefix (norm_source @ [sep]) norm_dest)"

definition process_item ::
  "operation \<Rightarrow> string \<Rightarrow> nat \<Rightarrow> nat \<Rightarrow> string \<Rightarrow> fileop_state \<Rightarrow> fileop_state" where
  "process_item operation destination_dir total_files i source_path st =
     (if \<not> path_exists (filesys st) source_path
      then progress_in_try source_path i total_files
             (st\<lparr>errors := errors st @ [basename source_path @ '': Source no longer exists'']\<rparr>)
      else if self_or_subdirectory source_path destination_dir
      then progress_in_try source_path i total_files
             (st\<lparr>errors := errors st @
                [basename source_path @ '': Cannot '' @ op_name operation
                 @ '' to itself or subdirectory'']\<rparr>)
      else
        let filename = basename source_path;
            destination_path = resolve_conflict (filesys st) destination_dir filename
                                 (path_join destination_dir filename) 1;
            call = (case operation of
                      Copy \<Rightarrow> if path_isdir (filesys st) source_path
                              then CopyTree source_path destination_path
                              else Copy2 source_path destination_path
                    | Move \<Rightarrow> MoveCall source_path destination_path);
            outcome = (case call of
                         CopyTree s d \<Rightarrow> shutil_copytree s d (filesys st)
                       | Copy2 s d \<Rightarrow> shutil_copy2 s d (filesys st)
                       | MoveCall s d \<Rightarrow> shutil_move s d (filesys st));
            st1 = st\<lparr>calls := calls st @ [call]\<rparr>
        in emit_progress i total_files
             (case outcome of
                Inr fs' \<Rightarrow> st1\<lparr>filesys := fs', success_count := success_count st1 + 1\<rparr>
              | Inl msg \<Rightarrow> st1\<lparr>errors := errors st1 @ [basename source_path @ '': '' @ msg]\<rparr>))"

text \<open>
  The loop (lines 498 to 558): one poll of \<^verbatim>\<open>_is_cancelled\<close> before each item; an
  exception that leaves the body ends the run.
\<close>

fun run_items ::
  "operation \<Rightarrow> string \<Rightarrow> nat \<Rightarrow> cancel \<Rightarrow> nat \<Rightarrow> string list \<Rightarrow> fileop_state \<Rightarrow> fileop_state" where
  "run_items operation destination_dir total_files c i [] st = st"
| "run_items operation destination_dir total_files c i (source_path # rest) st =
     (if cancelled c (polls st) then st\<lparr>polls := polls st + 1\<rparr>
      else
        let st' = process_item operation destination_dir total_files i source_path
                    (st\<lparr>polls := polls st + 1\<rparr>)
        in if raised st' \<noteq> None then st'
           else run_items operation destination_dir total_files c (i + 1) rest st')"

text \<open>\<^verbatim>\<open>FileOperationWorker.run\<close> (lines 487 to 562).\<close>

definition FileOperationWorker_run ::
  "filesystem \<Rightarrow> string list \<Rightarrow> string \<Rightarrow> operation \<Rightarrow> cancel \<Rightarrow> fileop_state" where
  "FileOperationWorker_run fs0 source_paths destination_dir operation c =
     (let st0 = \<lparr>filesys = fs0, errors = [], success_count = 0, events = [], calls = [],
                 polls = 0, raised = None\<rparr>
      in if \<not> path_isdir fs0 destination_dir
         then st0\<lparr>events := [FError (op_title operation @ '' Error'')
                                 ''Invalid destination directory.'']\<rparr>
         else
           let st = run_items operation destination_dir (length source_paths) c 0
                      source_paths st0
           in if raised st \<noteq> None then st
              else st\<lparr>events := events st @
                     [FResult (success_count st) (errors st) operation, FFinished]\<rparr>)"

section \<open>\<^verbatim>\<open>SearchWorker\<close> (FileView.py)\<close>

text \<open>
  What the operating system answers during a search: \<^verbatim>\<open>os.path.abspath\<close> (\<open>None\<close> when it
  raises), \<^verbatim>\<open>os.path.exists\<close>, \<^verbatim>\<open>os.path.isdir\<close>, whether \<^verbatim>\<open>os.listdir\<close> succeeds, and
  the triples \<^verbatim>\<open>(root, dirs, files)\<close> that \<^verbatim>\<open>os.walk\<close> yields, in order. The names are
  strings, on which \<^verbatim>\<open>lower\<close>, \<^verbatim>\<open>in\<close>, \<^verbatim>\<open>os.path.join\<close> and \<^verbatim>\<open>os.path.exists\<close> raise
  nothing, so the \<^verbatim>\<open>except\<close> branches of the loop are never entered and \<^verbatim>\<open>dirs\<close> is
  never changed.
\<close>

record search_os =
  os_abspath :: "string \<Rightarrow> string option"
  os_exists :: "string \<Rightarrow> bool"
  os_isdir :: "string \<Rightarrow> bool"
  os_listdir_ok :: "string \<Rightarrow> bool"
  os_walk :: "string \<Rightarrow> (string \<times> string list \<times> string list) list"

datatype search_event =
    SResult "string list"
  | SProgress int
  | SFinished

record search_state =
  matches :: "string list"
  processed :: nat
  total_processed :: nat
  search_events :: "search_event list"
  search_polls :: nat

text \<open>
  The two inner loops (lines 635 to 651 over \<^verbatim>\<open>dirs\<close>, lines 654 to 668 over \<^verbatim>\<open>files\<close>)
  do the same to each name.
\<close>

fun search_names ::
  "search_os \<Rightarrow> string \<Rightarrow> cancel \<Rightarrow> string \<Rightarrow> string list \<Rightarrow> search_state \<Rightarrow> search_state" where
  "search_names env query c root' [] st = st"
| "search_names env query c root' (name # rest) st =
     (if cancelled c (search_polls st) then st\<lparr>search_polls := search_polls st + 1\<rparr>
      else
        let st1 = st\<lparr>search_polls := search_polls st + 1,
                     total_processed := total_processed st + 1\<rparr>;
            full_path = path_join root' name;
            st2 = (if contains query (lower name) \<and> os_exists env full_path
                   then st1\<lparr>matches := matches st1 @ [full_path]\<rparr> else st1)
        in search_names env query c root' rest st2)"

text \<open>
  One directory that still exists (lines 632 to 678): its directory names, its file
  names, then \<^verbatim>\<open>processed += 1\<close> and a progress signal at every fifth directory.
\<close>

definition visit_directory ::
  "search_os \<Rightarrow> string \<Rightarrow> cancel \<Rightarrow> string \<Rightarrow> string list \<Rightarrow> string list
     \<Rightarrow> search_state \<Rightarrow> search_state" where
  "visit_directory env query c root' dirs files st0 =
     (let st1 = search_names env query c root' dirs st0;
          st2 = search_names env query c root' files st1;
          st3 = st2\<lparr>processed := processed st2 + 1\<rparr>
      in if processed st3 mod 5 = 0
         then st3\<lparr>search_events := search_events st3 @
                [SProgress (min (int (processed st3) * 2) 95)]\<rparr>
         else st3)"

text \<open>
  The loop over \<^verbatim>\<open>os.walk(normalized_root)\<close>, lines 621 to 683: a poll, the directory, and
  the test of the two limits.
\<close>

fun search_walk ::
  "search_os \<Rightarrow> string \<Rightarrow> cancel \<Rightarrow> (string \<times> string list \<times> string list) list
     \<Rightarrow> search_state \<Rightarrow> search_state" where
  "search_walk env query c [] st = st"
| "search_walk env query c ((root', dirs, files) # rest) st =
     (if cancelled c (search_polls st) then st\<lparr>search_polls := search_polls st + 1\<rparr>
      else
        let st0 = st\<lparr>search_polls := search_polls st + 1\<rparr>
        in if \<not> os_exists env root' then search_walk env query c rest st0
           else
             let st4 = visit_directory env query c root' dirs files st0
             in if length (matches st4) > 200 \<or> processed st4 > 2000 then st4
                else search_walk env query c rest st4)"

text \<open>
  \<^verbatim>\<open>SearchWorker.run\<close> (lines 586 to 691); \<^verbatim>\<open>__init__\<close> stores \<^verbatim>\<open>query.lower()\<close>. The
  result is the list of the signals emitted.
\<close>

definition SearchWorker_run ::
  "search_os \<Rightarrow> string \<Rightarrow> string \<Rightarrow> cancel \<Rightarrow> search_event list" where
  "SearchWorker_run env root_path query0 c =
     (let query = lower query0;
          normalized_root = (case os_abspath env root_path of
                               Some a \<Rightarrow> normpath a | None \<Rightarrow> root_path)
      in if \<not> os_exists env normalized_root \<or> \<not> os_isdir env normalized_root
         then [SResult [], SProgress 100, SFinished]
         else if \<not> os_listdir_ok env normalized_root
         then [SResult [], SProgress 100, SFinished]
         else
           let st = search_walk env query c (os_walk env normalized_root)
                      \<lparr>matches = [], processed = 0, total_processed = 0,
                       search_events = [], search_polls = 0\<rparr>
           in search_events st @ [SResult (matches st), SProgress 100, SFinished])"

section \<open>\<^verbatim>\<open>DuplicateFinderWorker\<close> (duplicate_finder.py)\<close>

text \<open>
  What the operating system answers during a scan. \<^verbatim>\<open>d_listdir_error\<close> is the text of the
  exception of \<^verbatim>\<open>os.listdir\<close>, if it raises. \<^verbatim>\<open>d_stat_size\<close> is \<^verbatim>\<open>os.stat(p).st_size\<close> in
  the scan stage. \<^verbatim>\<open>d_read p = (n, r)\<close> describes reading \<^verbatim>\<open>p\<close> in the hash stage: \<open>n\<close>
  chunks are read, then either the file ends and \<open>r\<close> is its digest, or an \<^verbatim>\<open>OSError\<close> is
  raised and \<open>r\<close> is \<open>None\<close>. \<^verbatim>\<open>d_getmtime\<close> and \<^verbatim>\<open>d_getsize\<close> are \<^verbatim>\<open>os.path.getmtime\<close> and
  \<^verbatim>\<open>os.path.getsize\<close> in the last stage (\<open>None\<close> when they raise); a modification time is
  a finite float, hence a rational. The stages have answers of their own because the
  files may change while the scan runs.
\<close>

record dup_os =
  d_exists :: "string \<Rightarrow> bool"
  d_isdir :: "string \<Rightarrow> bool"
  d_listdir_error :: "string \<Rightarrow> string option"
  d_walk :: "string \<Rightarrow> (string \<times> string list \<times> string list) list"
  d_islink :: "string \<Rightarrow> bool"
  d_stat_size :: "string \<Rightarrow> int option"
  d_read :: "string \<Rightarrow> nat \<times> string option"
  d_getmtime :: "string \<Rightarrow> rat option"
  d_getsize :: "string \<Rightarrow> int option"

text \<open>
  The dictionary appended to \<^verbatim>\<open>duplicate_groups\<close>; \<^verbatim>\<open>gfiles\<close>, \<^verbatim>\<open>gsize\<close> and \<^verbatim>\<open>gcount\<close> are
  its keys \<^verbatim>\<open>'files'\<close>, \<^verbatim>\<open>'size'\<close> and \<^verbatim>\<open>'count'\<close>.
\<close>

record duplicate_group =
  hash :: string
  gfiles :: "string list"
  gsize :: int
  wasted_space :: int
  gcount :: nat

datatype dup_event =
    DStatus string
  | DProgress int
  | DResult "duplicate_group list" int
  | DFinished

record dup_state =
  size_groups :: "(int \<times> string list) list"
  total_files :: nat
  hash_groups :: "(string \<times> string list) list"
  processed_files :: nat
  dup_events :: "dup_event list"
  dup_polls :: nat
  dup_raised :: "py_error option"

text \<open>
  \<^verbatim>\<open>d[k].append(v)\<close> on a \<^verbatim>\<open>defaultdict(list)\<close>: a dictionary keeps its keys in the order
  of their first insertion.
\<close>

fun dict_append :: "'k \<Rightarrow> 'v \<Rightarrow> ('k \<times> 'v list) list \<Rightarrow> ('k \<times> 'v list) list" where
  "dict_append k v [] = [(k, [v])]"
| "dict_append k v ((k', vs) # rest) =
     (if k = k' then (k', vs @ [v]) # rest else (k', vs) # dict_append k v rest)"

subsection \<open>Step 1: group files by size (lines 58 to 126)\<close>

text \<open>
  \<^verbatim>\<open>os.walk\<close> swallows the errors of the directories it lists and the body of the loop
  over the files catches \<^verbatim>\<open>OSError\<close>, so the \<^verbatim>\<open>except Exception\<close> of line 123 is never
  entered.
\<close>

definition scan_file :: "dup_os \<Rightarrow> int \<Rightarrow> string \<Rightarrow> string \<Rightarrow> dup_state \<Rightarrow> dup_state" where
  "scan_file env min_file_size root' filename st =
     (let filepath = path_join root' filename
      in if \<not> d_exists env filepath then st
         else if d_islink env filepath then st
         else (case d_stat_size env filepath of
                 None \<Rightarrow> st
               | Some file_size \<Rightarrow>
                   if file_size < min_file_size then st
                   else
                     let st1 = st\<lparr>size_groups := dict_append file_size filepath (size_groups st),
                                  total_files := total_files st + 1\<rparr>
                     in if total_files st1 mod 50 = 0
                        then st1\<lparr>dup_events := dup_events st1 @
                               [DStatus (''Scanned '' @ str_nat (total_files st1) @ '' files...'')]\<rparr>
                        else st1))"

fun scan_files ::
  "dup_os \<Rightarrow> int \<Rightarrow> cancel \<Rightarrow> string \<Rightarrow> string list \<Rightarrow> dup_state \<Rightarrow> dup_state" where
  "scan_files env min_file_size c root' [] st = st"
| "scan_files env min_file_size c root' (filename # rest) st =
     (if cancelled c (dup_polls st) then st\<lparr>dup_polls := dup_polls st + 1\<rparr>
      else scan_files env min_file_size c root' rest
             (scan_file env min_file_size root' filename (st\<lparr>dup_polls := dup_polls st + 1\<rparr>)))"

fun scan_walk ::
  "dup_os \<Rightarrow> int \<Rightarrow> cancel \<Rightarrow> (string \<times> string list \<times> string list) list
     \<Rightarrow> dup_state \<Rightarrow> dup_state" where
  "scan_walk env min_file_size c [] st = st"
| "scan_walk env min_file_size c ((root', dirs, files) # rest) st =
     (if cancelled c (dup_polls st) then st\<lparr>dup_polls := dup_polls st + 1\<rparr>
      else scan_walk env min_file_size c rest
             (scan_files env min_file_size c root' files (st\<lparr>dup_polls := dup_polls st + 1\<rparr>)))"

fun scan_roots :: "dup_os \<Rightarrow> int \<Rightarrow> cancel \<Rightarrow> string list \<Rightarrow> dup_state \<Rightarrow> dup_state" where
  "scan_roots env min_file_size c [] st = st"
| "scan_roots env min_file_size c (root_path # rest) st =
     (if cancelled c (dup_polls st) then st\<lparr>dup_polls := dup_polls st + 1\<rparr>
      else
        let st0 = st\<lparr>dup_polls := dup_polls st + 1\<rparr>
        in if \<not> d_exists env root_path then scan_roots env min_file_size c rest st0
           else if \<not> d_isdir env root_path then scan_roots env min_file_size c rest st0
           else (case d_listdir_error env root_path of
                   Some e \<Rightarrow>
                     scan_roots env min_file_size c rest
                       (st0\<lparr>dup_events := dup_events st0 @
                          [DStatus (''Cannot access '' @ root_path @ '': '' @ e)]\<rparr>)
                 | None \<Rightarrow>
                     scan_roots env min_file_size c rest
                       (scan_walk env min_file_size c (d_walk env root_path) st0)))"

subsection \<open>Step 2: hash the files that share their size (lines 30 to 42 and 156 to 174)\<close>

text \<open>
  \<^verbatim>\<open>get_file_hash\<close> polls \<^verbatim>\<open>_is_cancelled\<close> after every chunk read and returns \<^verbatim>\<open>None\<close> when
  it is set; it returns the polls made with its result.
\<close>

fun read_chunks :: "cancel \<Rightarrow> nat \<Rightarrow> nat \<Rightarrow> bool \<times> nat" where
  "read_chunks c 0 p = (False, p)"
| "read_chunks c (Suc n) p = (if cancelled c p then (True, p + 1) else read_chunks c n (p + 1))"

definition get_file_hash :: "dup_os \<Rightarrow> cancel \<Rightarrow> string \<Rightarrow> nat \<Rightarrow> string option \<times> nat" where
  "get_file_hash env c filepath p =
     (case d_read env filepath of (n, r) \<Rightarrow>
        (case read_chunks c n p of (stopped, p') \<Rightarrow> (if stopped then None else r, p')))"

definition hash_file :: "dup_os \<Rightarrow> cancel \<Rightarrow> nat \<Rightarrow> string \<Rightarrow> dup_state \<Rightarrow> dup_state" where
  "hash_file env c potential_duplicates filepath st =
     (case get_file_hash env c filepath (dup_polls st) of (file_hash, p) \<Rightarrow>
        let st1 = st\<lparr>dup_polls := p\<rparr>;
            st2 = (case file_hash of
                     None \<Rightarrow> st1
                   | Some h \<Rightarrow> if h \<noteq> []
                               then st1\<lparr>hash_groups := dict_append h filepath (hash_groups st1)\<rparr>
                               else st1);
            st3 = st2\<lparr>processed_files := processed_files st2 + 1\<rparr>
        in if processed_files st3 mod 10 = 0
           then (case percent (processed_files st3) potential_duplicates of
                   Inl e \<Rightarrow> st3\<lparr>dup_raised := Some e\<rparr>
                 | Inr progress \<Rightarrow> st3\<lparr>dup_events := dup_events st3 @ [DProgress progress]\<rparr>)
           else st3)"

fun hash_files :: "dup_os \<Rightarrow> cancel \<Rightarrow> nat \<Rightarrow> string list \<Rightarrow> dup_state \<Rightarrow> dup_state" where
  "hash_files env c potential_duplicates [] st = st"
| "hash_files env c potential_duplicates (filepath # rest) st =
     (if cancelled c (dup_polls st) then st\<lparr>dup_polls := dup_polls st + 1\<rparr>
      else
        let st' = hash_file env c potential_duplicates filepath
                    (st\<lparr>dup_polls := dup_polls st + 1\<rparr>)
        in if dup_raised st' \<noteq> None then st'
           else hash_files env c potential_duplicates rest st')"

fun hash_size_groups ::
  "dup_os \<Rightarrow> cancel \<Rightarrow> nat \<Rightarrow> (int \<times> string list) list \<Rightarrow> dup_state \<Rightarrow> dup_state" where
  "hash_size_groups env c potential_duplicates [] st = st"
| "hash_size_groups env c potential_duplicates ((file_size, file_paths) # rest) st =
     (if cancelled c (dup_polls st) then st\<lparr>dup_polls := dup_polls st + 1\<rparr>
      else
        let st0 = st\<lparr>dup_polls := dup_polls st + 1\<rparr>;
            st' = (if length file_paths > 1
                   then hash_files env c potential_duplicates file_paths st0 else st0)
        in if dup_raised st' \<noteq> None then st'
           else hash_size_groups env c potential_duplicates rest st')"

subsection \<open>Step 3: the groups of duplicates (lines 188 to 215)\<close>

text \<open>
  \<^verbatim>\<open>file_paths.sort(key=os.path.getmtime)\<close> computes every key before it moves anything: if
  one raises, the list is as it was. The sort is stable, as \<open>sort_key\<close> is.
\<close>

definition sort_by_mtime :: "dup_os \<Rightarrow> string list \<Rightarrow> string list" where
  "sort_by_mtime env file_paths =
     (if list_all (\<lambda>x. d_getmtime env x \<noteq> None) file_paths
      then sort_key (\<lambda>x. the (d_getmtime env x)) file_paths
      else file_paths)"

definition assemble_group :: "dup_os \<Rightarrow> string \<Rightarrow> string list \<Rightarrow> duplicate_group option" where
  "assemble_group env file_hash file_paths0 =
     (let file_paths = sort_by_mtime env file_paths0
      in case d_getsize env (hd file_paths) of
           None \<Rightarrow> None
         | Some file_size \<Rightarrow>
             Some \<lparr>hash = file_hash, gfiles = file_paths, gsize = file_size,
                   wasted_space = file_size * (int (length file_paths) - 1),
                   gcount = length file_paths\<rparr>)"

fun assemble ::
  "dup_os \<Rightarrow> (string \<times> string list) list \<Rightarrow> duplicate_group list \<times> int
     \<Rightarrow> duplicate_group list \<times> int" where
  "assemble env [] acc = acc"
| "assemble env ((file_hash, file_paths) # rest) (duplicate_groups, total_wasted_space) =
     (if length file_paths > 1
      then (case assemble_group env file_hash file_paths of
              None \<Rightarrow> assemble env rest (duplicate_groups, total_wasted_space)
            | Some g \<Rightarrow> assemble env rest
                         (duplicate_groups @ [g], total_wasted_space + wasted_space g))
      else assemble env rest (duplicate_groups, total_wasted_space))"

subsection \<open>\<^verbatim>\<open>DuplicateFinderWorker.run\<close> (lines 45 to 222)\<close>

definition potential_count :: "(int \<times> string list) list \<Rightarrow> nat" where
  "potential_count groups =
     sum_list (map (\<lambda>(file_size, file_paths).
                      if length file_paths > 1 then length file_paths else 0) groups)"

definition DuplicateFinderWorker_run ::
  "dup_os \<Rightarrow> string list \<Rightarrow> int \<Rightarrow> cancel \<Rightarrow> dup_state" where
  "DuplicateFinderWorker_run env root_paths min_file_size c =
     (let st0 = \<lparr>size_groups = [], total_files = 0, hash_groups = [], processed_files = 0,
                 dup_events = [DStatus ''Scanning files...''], dup_polls = 0,
                 dup_raised = None\<rparr>;
          st1 = scan_roots env min_file_size c root_paths st0
      in if cancelled c (dup_polls st1)
         then st1\<lparr>dup_polls := dup_polls st1 + 1, dup_events := dup_events st1 @ [DFinished]\<rparr>
         else
           let st2 = st1\<lparr>dup_polls := dup_polls st1 + 1,
                        dup_events := dup_events st1 @
                          [DStatus (''Found '' @ str_nat (total_files st1)
                                    @ '' files, checking for duplicates...'')]\<rparr>;
               potential_duplicates = potential_count (size_groups st2)
           in if potential_duplicates = 0
              then st2\<lparr>dup_events := dup_events st2 @ [DResult [] 0, DProgress 100, DFinished]\<rparr>
              else
                let st3 = hash_size_groups env c potential_duplicates (size_groups st2)
                            (st2\<lparr>dup_events := dup_events st2 @
                               [DStatus (''Checking '' @ str_nat potential_duplicates
                                         @ '' potential duplicates...'')]\<rparr>)
                in if dup_raised st3 \<noteq> None then st3
                   else if cancelled c (dup_polls st3)
                   then st3\<lparr>dup_polls := dup_polls st3 + 1,
                            dup_events := dup_events st3 @ [DFinished]\<rparr>
                   else (case assemble env (hash_groups st3) ([], 0) of
                           (duplicate_groups, total_wasted_space) \<Rightarrow>
                             st3\<lparr>dup_polls := dup_polls st3 + 1,
                                 dup_events := dup_events st3 @
                                   [DResult duplicate_groups total_wasted_space,
                                    DProgress 100, DFinished]\<rparr>))"

section \<open>Reading the signals of a run\<close>






fun dup_progress :: "dup_event list \<Rightarrow> int list" where
  "dup_progress [] = []"
| "dup_progress (DProgress p # es) = p # dup_progress es"
| "dup_progress (DStatus s # es) = dup_progress es"
| "dup_progress (DResult gs w # es) = dup_progress es"
| "dup_progress (DFinished # es) = dup_progress es"

text \<open>The payloads of the result signals of a duplicate scan.\<close>

fun dup_results :: "dup_event list \<Rightarrow> (duplicate_group list \<times> int) list" where
  "dup_results [] = []"
| "dup_results (DResult gs w # es) = (gs, w) # dup_results es"
| "dup_results (DProgress p # es) = dup_results es"
| "dup_results (DStatus s # es) = dup_results es"
| "dup_results (DFinished # es) = dup_results es"

text \<open>
  A run has seen the cancellation when one of the polls it made read True:
  \<open>polls_made\<close> is the number of its polls.
\<close>

definition saw_cancel :: "cancel \<Rightarrow> nat \<Rightarrow> bool" where
  "saw_cancel c polls_made = (case c of None \<Rightarrow> False | Some k \<Rightarrow> k < polls_made)"

text \<open>
  The state of a duplicate scan when step 1 ends (line 127) and when step 2 ends
  (line 175), and what the later steps read of a state that step 1 leaves alone.
\<close>

definition scan_end :: "dup_os \<Rightarrow> string list \<Rightarrow> int \<Rightarrow> cancel \<Rightarrow> dup_state" where
  "scan_end env root_paths min_file_size c =
     scan_roots env min_file_size c root_paths
       \<lparr>size_groups = [], total_files = 0, hash_groups = [], processed_files = 0,
        dup_events = [DStatus ''Scanning files...''], dup_polls = 0, dup_raised = None\<rparr>"

definition found_status :: "dup_state \<Rightarrow> dup_event" where
  "found_status st =
     DStatus (''Found '' @ str_nat (total_files st) @ '' files, checking for duplicates...'')"

definition checking_status :: "dup_state \<Rightarrow> dup_event" where
  "checking_status st =
     DStatus (''Checking '' @ str_nat (potential_count (size_groups st))
              @ '' potential duplicates...'')"

definition hash_end :: "dup_os \<Rightarrow> string list \<Rightarrow> int \<Rightarrow> cancel \<Rightarrow> dup_state" where
  "hash_end env root_paths min_file_size c =
     (let st1 = scan_end env root_paths min_file_size c
      in hash_size_groups env c (potential_count (size_groups st1)) (size_groups st1)
           (st1\<lparr>dup_polls := dup_polls st1 + 1,
                dup_events := dup_events st1 @ [found_status st1, checking_status st1]\<rparr>))"

definition later_view ::
  "dup_state \<Rightarrow> int list \<times> (duplicate_group list \<times> int) list \<times> py_error option
     \<times> (string \<times> string list) list \<times> nat" where
  "later_view st = (dup_progress (dup_events st), dup_results (dup_events st), dup_raised st,
                    hash_groups st, processed_files st)"

definition hash_inv :: "nat \<Rightarrow> dup_state \<Rightarrow> bool" where
  "hash_inv n st =
     (dup_raised st = None \<and> dup_results (dup_events st) = []
      \<and> sorted (dup_progress (dup_events st))
      \<and> list_all (\<lambda>v. v \<le> percent_value (processed_files st) n) (dup_progress (dup_events st)))"

text \<open>
  The groups step 3 emits for the hash groups it is given, in their order: one for each
  hash group of two or more files whose first file has a readable size.
\<close>

definition emitted_groups :: "dup_os \<Rightarrow> (string \<times> string list) list \<Rightarrow> duplicate_group list" where
  "emitted_groups env groups =
     List.map_filter (\<lambda>(file_hash, file_paths).
        if length file_paths > 1 then assemble_group env file_hash file_paths else None) groups"

section \<open>Two file systems used as examples\<close>

text \<open>
  \<^verbatim>\<open>/r\<close> holds \<^verbatim>\<open>a\<close>, \<^verbatim>\<open>b\<close> (5 bytes each) and \<^verbatim>\<open>c\<close> (7 bytes), \<^verbatim>\<open>/r/d\<close> holds \<^verbatim>\<open>e\<close> and
  \<^verbatim>\<open>f\<close> (5 bytes each); all but \<^verbatim>\<open>b\<close> have the same content; \<^verbatim>\<open>e\<close> is the oldest, \<^verbatim>\<open>a\<close>
  the newest.
\<close>

definition duplicates_os :: dup_os where
  "duplicates_os =
     \<lparr>d_exists = (\<lambda>p. True), d_isdir = (\<lambda>p. True), d_listdir_error = (\<lambda>p. None),
      d_walk = (\<lambda>p. [(''/r'', [''d''], [''a'', ''b'', ''c'']), (''/r/d'', [], [''e'', ''f''])]),
      d_islink = (\<lambda>p. False),
      d_stat_size = (\<lambda>p. if p = ''/r/c'' then Some 7 else Some 5),
      d_read = (\<lambda>p. if p = ''/r/b'' then (1, Some ''h2'') else (2, Some ''h1'')),
      d_getmtime = (\<lambda>p. if p = ''/r/a'' then Some 9 else if p = ''/r/d/e'' then Some 3
                          else Some 4),
      d_getsize = (\<lambda>p. Some 5)\<rparr>"

text \<open>
  \<^verbatim>\<open>/r\<close> holds \<^verbatim>\<open>a\<close> and \<^verbatim>\<open>b\<close>, 5 bytes each, with the same content; \<^verbatim>\<open>a\<close> is deleted
  after it has been hashed, so that neither its modification time nor its size can be
  read in step 3.
\<close>

definition vanished_os :: dup_os where
  "vanished_os =
     \<lparr>d_exists = (\<lambda>p. True), d_isdir = (\<lambda>p. True), d_listdir_error = (\<lambda>p. None),
      d_walk = (\<lambda>p. [(''/r'', [], [''a'', ''b''])]),
      d_islink = (\<lambda>p. False),
      d_stat_size = (\<lambda>p. Some 5),
      d_read = (\<lambda>p. (1, Some ''h1'')),
      d_getmtime = (\<lambda>p. if p = ''/r/a'' then None else Some 4),
      d_getsize = (\<lambda>p. if p = ''/r/a'' then None else Some 5)\<rparr>"


section \<open>Rounding to the nearest double is monotone\<close>

lemma rne_floor: "\<lfloor>x\<rfloor> \<le> rne x \<and> rne x \<le> \<lfloor>x\<rfloor> + 1"
  by (simp add: rne_def Let_def)

lemma rne_ge: "of_int n \<le> x \<Longrightarrow> n \<le> rne x"
proof -
  assume "of_int n \<le> x"
  then have "n \<le> \<lfloor>x\<rfloor>" by (simp add: le_floor_iff)
  with rne_floor [of x] show ?thesis by linarith
qed

lemma rne_le: "x \<le> of_int n \<Longrightarrow> rne x \<le> n"
proof (cases "x = of_int n")
  case True
  then show ?thesis by (simp add: rne_def)
next
  case False
  assume "x \<le> of_int n"
  with False have "x < of_int n" by simp
  then have "\<lfloor>x\<rfloor> < n" by (simp add: floor_less_iff)
  with rne_floor [of x] show ?thesis by linarith
qed

lemma rne_mono: "x \<le> y \<Longrightarrow> rne x \<le> rne y"
proof -
  assume xy: "x \<le> y"
  then have fl: "\<lfloor>x\<rfloor> \<le> \<lfloor>y\<rfloor>" by (rule floor_mono)
  show ?thesis
  proof (cases "\<lfloor>x\<rfloor> = \<lfloor>y\<rfloor>")
    case True
    with xy show ?thesis by (auto simp: rne_def Let_def)
  next
    case False
    with fl have "\<lfloor>x\<rfloor> + 1 \<le> \<lfloor>y\<rfloor>" by simp
    with rne_floor [of x] rne_floor [of y] show ?thesis by linarith
  qed
qed

lemma two_powi_pos: "0 < (2::rat) powi k"
  by simp

lemma expo_bounds:
  assumes "0 < x"
  shows "2 powi (expo x + 52) \<le> x" and "x < 2 powi (expo x + 53)"
proof -
  obtain n d where q: "quotient_of x = (n, d)" by (cases "quotient_of x")
  have d: "0 < d" using q by (rule quotient_of_denom_pos)
  have x: "x = of_int n / of_int d" using q by (rule quotient_of_div)
  have n: "0 < n" using assms d x by (simp add: zero_less_divide_iff)
  define bn where "bn = bitlen n"
  define bd where "bd = bitlen d"
  have bn1: "1 \<le> bn" using n bitlen_nonneg [of n] bitlen_eq_zero_iff [of n]
    unfolding bn_def by linarith
  have bd1: "1 \<le> bd" using d bitlen_nonneg [of d] bitlen_eq_zero_iff [of d]
    unfolding bd_def by linarith
  have "2 ^ nat (bn - 1) \<le> n" "n < 2 ^ nat bn"
    using bitlen_bounds [OF n] by (simp_all add: bn_def)
  then have "(of_int (2 ^ nat (bn - 1)) :: rat) \<le> of_int n" "(of_int n :: rat) < of_int (2 ^ nat bn)"
    by (simp_all only: of_int_le_iff of_int_less_iff)
  then have nb: "(2::rat) powi (bn - 1) \<le> of_int n" "(of_int n :: rat) < 2 powi bn"
    using bn1 by (simp_all add: power_int_def)
  have "2 ^ nat (bd - 1) \<le> d" "d < 2 ^ nat bd"
    using bitlen_bounds [OF d] by (simp_all add: bd_def)
  then have "(of_int (2 ^ nat (bd - 1)) :: rat) \<le> of_int d" "(of_int d :: rat) < of_int (2 ^ nat bd)"
    by (simp_all only: of_int_le_iff of_int_less_iff)
  then have db: "(2::rat) powi (bd - 1) \<le> of_int d" "(of_int d :: rat) < 2 powi bd"
    using bd1 by (simp_all add: power_int_def)
  define k where "k = bn - bd"
  have dpos: "(0::rat) < of_int d" using d by simp
  have lo: "(2::rat) powi (k - 1) < x"
  proof -
    have "(2::rat) powi (k - 1) * of_int d < 2 powi (k - 1) * 2 powi bd"
      using db(2) by (simp add: mult_less_cancel_left_pos)
    also have "\<dots> = 2 powi (bn - 1)"
      by (simp add: k_def power_int_add [symmetric])
    also have "\<dots> \<le> of_int n" by (rule nb(1))
    finally show ?thesis using dpos by (simp add: x pos_less_divide_eq)
  qed
  have hi: "x < (2::rat) powi (k + 1)"
  proof -
    have "of_int n < (2::rat) powi bn" by (rule nb(2))
    also have "\<dots> = 2 powi (k + 1) * 2 powi (bd - 1)"
      by (simp add: k_def power_int_add [symmetric])
    also have "\<dots> \<le> 2 powi (k + 1) * of_int d"
      using db(1) by (simp add: mult_le_cancel_left_pos)
    finally show ?thesis using dpos by (simp add: x pos_divide_less_eq)
  qed
  have e: "expo x = (if 2 powi k \<le> x then k - 52 else k - 53)"
    by (simp add: expo_def q Let_def k_def bn_def bd_def)
  show "2 powi (expo x + 52) \<le> x"
  proof (cases "2 powi k \<le> x")
    case True
    then show ?thesis by (simp add: e)
  next
    case False
    with lo show ?thesis by (simp add: e)
  qed
  show "x < 2 powi (expo x + 53)"
  proof (cases "2 powi k \<le> x")
    case True
    then have "expo x + 53 = k + 1" by (simp add: e)
    with hi show ?thesis by (simp only:)
  next
    case False
    then show ?thesis by (simp add: e)
  qed
qed

lemma expo_mono:
  assumes "0 < x" and "x \<le> y"
  shows "expo x \<le> expo y"
proof (rule ccontr)
  assume "\<not> expo x \<le> expo y"
  then have "expo y + 53 \<le> expo x + 52" by simp
  then have "(2::rat) powi (expo y + 53) \<le> 2 powi (expo x + 52)"
    by (intro power_int_increasing) simp_all
  also have "\<dots> \<le> x" using assms(1) by (rule expo_bounds)
  finally have "2 powi (expo y + 53) \<le> y" using assms(2) by simp
  moreover have "y < 2 powi (expo y + 53)" using assms by (intro expo_bounds) simp
  ultimately show False by simp
qed

lemma rd_mono:
  assumes "x \<le> y"
  shows "rd x \<le> rd y"
proof (cases "0 < x")
  case False
  then have "rd x = 0" by (simp add: rd_def)
  moreover have "0 \<le> rd y"
  proof (cases "0 < y")
    case True
    have "2 powi (expo y + 52) \<le> y" using True by (rule expo_bounds)
    then have "(0::rat) \<le> y / 2 powi expo y" using True by simp
    then have "0 \<le> rne (y / 2 powi expo y)" using rne_ge [of 0] by simp
    then show ?thesis using True by (simp add: rd_def)
  next
    case False
    then show ?thesis by (simp add: rd_def)
  qed
  ultimately show ?thesis by simp
next
  case True
  with assms have y: "0 < y" by simp
  define ex where "ex = expo x"
  define ey where "ey = expo y"
  have exy: "ex \<le> ey" unfolding ex_def ey_def using True assms by (rule expo_mono)
  have rx: "rd x = of_int (rne (x / 2 powi ex)) * 2 powi ex"
    using True by (simp add: rd_def ex_def)
  have ry: "rd y = of_int (rne (y / 2 powi ey)) * 2 powi ey"
    using y by (simp add: rd_def ey_def)
  show ?thesis
  proof (cases "ex = ey")
    case True
    have "x / 2 powi ey \<le> y / 2 powi ey" using assms by (simp add: divide_right_mono)
    then have "rne (x / 2 powi ey) \<le> rne (y / 2 powi ey)" by (rule rne_mono)
    then show ?thesis unfolding rx ry True by (simp add: mult_right_mono)
  next
    case False
    with exy have lt: "ex + 1 \<le> ey" by simp
    have "x < 2 powi (ex + 53)" unfolding ex_def using \<open>0 < x\<close> by (rule expo_bounds)
    then have "x / 2 powi ex \<le> 2 powi 53"
      by (simp add: power_int_add pos_divide_le_eq mult.commute)
    then have "x / 2 powi ex \<le> of_int (2 ^ 53)" by (simp add: power_int_def)
    then have "rne (x / 2 powi ex) \<le> 2 ^ 53" by (rule rne_le)
    then have "(of_int (rne (x / 2 powi ex)) :: rat) \<le> of_int (2 ^ 53)"
      by (simp only: of_int_le_iff)
    then have "rd x \<le> 2 powi ex * 2 ^ 53"
      unfolding rx by (simp add: mult.commute mult_left_mono)
    also have "\<dots> = 2 powi (ex + 53)" by (simp add: power_int_add)
    also have "\<dots> \<le> 2 powi (ey + 52)" using lt by (intro power_int_increasing) simp_all
    also have "\<dots> = 2 powi ey * 2 ^ 52" by (simp add: power_int_add)
    also have "\<dots> \<le> rd y"
    proof -
      have "2 powi (ey + 52) \<le> y" unfolding ey_def using y by (rule expo_bounds)
      then have "2 powi 52 \<le> y / 2 powi ey"
        by (simp add: power_int_add pos_le_divide_eq mult.commute)
      then have "of_int (2 ^ 52) \<le> y / 2 powi ey" by (simp add: power_int_def)
      then have "2 ^ 52 \<le> rne (y / 2 powi ey)" by (rule rne_ge)
      then have "(of_int (2 ^ 52) :: rat) \<le> of_int (rne (y / 2 powi ey))"
        by (simp only: of_int_le_iff)
      then show ?thesis unfolding ry by (simp add: mult.commute mult_left_mono)
    qed
    finally show ?thesis .
  qed
qed

lemma rd_1: "rd 1 = 1" by code_simp
lemma rd_100: "rd 100 = 100" by code_simp

lemma percent_value_mono: "a \<le> a' \<Longrightarrow> percent_value a b \<le> percent_value a' b"
proof -
  assume "a \<le> a'"
  then have "(of_nat a :: rat) / of_nat b \<le> of_nat a' / of_nat b"
    by (simp add: divide_right_mono)
  then have "rd (of_nat a / of_nat b) \<le> rd (of_nat a' / of_nat b)" by (rule rd_mono)
  then have "rd (of_nat a / of_nat b) * 100 \<le> rd (of_nat a' / of_nat b) * 100" by simp
  then have "rd (rd (of_nat a / of_nat b) * 100) \<le> rd (rd (of_nat a' / of_nat b) * 100)"
    by (rule rd_mono)
  then show ?thesis unfolding percent_value_def by (rule floor_mono)
qed

lemma percent_value_le_100: "a \<le> b \<Longrightarrow> percent_value a b \<le> 100"
proof -
  assume ab: "a \<le> b"
  have "(of_nat a :: rat) / of_nat b \<le> 1"
  proof (cases "b = 0")
    case True
    then show ?thesis by simp
  next
    case False
    with ab show ?thesis by (simp add: divide_le_eq_1)
  qed
  then have "rd (of_nat a / of_nat b) \<le> rd 1" by (rule rd_mono)
  then have "rd (of_nat a / of_nat b) * 100 \<le> 100" by (simp add: rd_1)
  then have "rd (rd (of_nat a / of_nat b) * 100) \<le> rd 100" by (rule rd_mono)
  then have "\<lfloor>rd (rd (of_nat a / of_nat b) * 100)\<rfloor> \<le> \<lfloor>100 :: rat\<rfloor>"
    unfolding rd_100 by (rule floor_mono)
  then show ?thesis by (simp add: percent_value_def)
qed



section \<open>Properties of the runs\<close>

subsection \<open>\<^verbatim>\<open>FileOperationWorker\<close>: one progress signal for each item\<close>

lemma emit_progress_eq:
  "0 < n \<Longrightarrow> emit_progress i n st = st\<lparr>events := events st @ [FProgress (percent_value (i + 1) n)]\<rparr>"
  by (simp add: emit_progress_def percent_def)

lemma progress_in_try_eq:
  "0 < n \<Longrightarrow> progress_in_try src i n st
     = st\<lparr>events := events st @ [FProgress (percent_value (i + 1) n)]\<rparr>"
  by (simp add: progress_in_try_def percent_def)

lemma process_item_events:
  "0 < n \<Longrightarrow> events (process_item opn d n i src st)
     = events st @ [FProgress (percent_value (i + 1) n)]"
  by (simp add: process_item_def emit_progress_eq progress_in_try_eq Let_def split: sum.splits)

lemma process_item_raised: "0 < n \<Longrightarrow> raised (process_item opn d n i src st) = raised st"
  by (simp add: process_item_def emit_progress_eq progress_in_try_eq Let_def split: sum.splits)

lemma process_item_polls: "0 < n \<Longrightarrow> polls (process_item opn d n i src st) = polls st"
  by (simp add: process_item_def emit_progress_eq progress_in_try_eq Let_def split: sum.splits)

lemma run_items_events:
  "raised st = None \<Longrightarrow> i + length srcs \<le> n \<Longrightarrow>
   \<exists>k\<le>length srcs.
     events (run_items opn d n c i srcs st)
       = events st @ map (\<lambda>j. FProgress (percent_value (j + 1) n)) [i..<i + k]
     \<and> raised (run_items opn d n c i srcs st) = None
     \<and> (c = None \<longrightarrow> k = length srcs)"
proof (induction srcs arbitrary: i st)
  case Nil
  then show ?case by simp
next
  case (Cons src srcs)
  then have n: "0 < n" by simp
  show ?case
  proof (cases "cancelled c (polls st)")
    case True
    then have "c \<noteq> None" by (auto simp: cancelled_def split: option.splits)
    with True Cons.prems(1) show ?thesis by (intro exI [of _ 0]) simp
  next
    case False
    define st' where "st' = process_item opn d n i src (st\<lparr>polls := polls st + 1\<rparr>)"
    have ev: "events st' = events st @ [FProgress (percent_value (i + 1) n)]"
      unfolding st'_def by (simp add: process_item_events [OF n])
    have ra: "raised st' = None"
      unfolding st'_def using Cons.prems(1) by (simp add: process_item_raised [OF n])
    have run: "run_items opn d n c i (src # srcs) st = run_items opn d n c (i + 1) srcs st'"
      using False ra by (simp add: st'_def Let_def)
    from Cons.prems(2) have "(i + 1) + length srcs \<le> n" by simp
    from Cons.IH [OF ra this] obtain k where k: "k \<le> length srcs"
      and kev: "events (run_items opn d n c (i + 1) srcs st')
                 = events st' @ map (\<lambda>j. FProgress (percent_value (j + 1) n)) [i + 1..<i + 1 + k]"
      and kra: "raised (run_items opn d n c (i + 1) srcs st') = None"
      and kc: "c = None \<longrightarrow> k = length srcs" by blast
    have upt: "[i..<i + (k + 1)] = i # [i + 1..<i + 1 + k]" by (simp add: upt_conv_Cons)
    show ?thesis
    proof (intro exI [of _ "k + 1"] conjI)
      show "k + 1 \<le> length (src # srcs)" using k by simp
      show "events (run_items opn d n c i (src # srcs) st)
              = events st @ map (\<lambda>j. FProgress (percent_value (j + 1) n)) [i..<i + (k + 1)]"
        unfolding run kev ev upt by simp
      show "raised (run_items opn d n c i (src # srcs) st) = None" unfolding run by (rule kra)
      show "c = None \<longrightarrow> k + 1 = length (src # srcs)" using kc by simp
    qed
  qed
qed

lemma fileop_run_events:
  assumes "path_isdir fs0 d"
  shows "\<exists>k\<le>length srcs.
           events (FileOperationWorker_run fs0 srcs d opn c)
             = map (\<lambda>j. FProgress (percent_value (j + 1) (length srcs))) [0..<k]
               @ [FResult (success_count (FileOperationWorker_run fs0 srcs d opn c))
                    (errors (FileOperationWorker_run fs0 srcs d opn c)) opn, FFinished]
           \<and> raised (FileOperationWorker_run fs0 srcs d opn c) = None
           \<and> (c = None \<longrightarrow> k = length srcs)"
proof -
  define st0 where "st0 = \<lparr>filesys = fs0, errors = [], success_count = 0, events = [],
                            calls = [], polls = 0, raised = None\<rparr>"
  have "raised st0 = None" "0 + length srcs \<le> length srcs" by (simp_all add: st0_def)
  from run_items_events [OF this, of opn d c] obtain k where k: "k \<le> length srcs"
    and ev: "events (run_items opn d (length srcs) c 0 srcs st0)
               = events st0 @ map (\<lambda>j. FProgress (percent_value (j + 1) (length srcs))) [0..<0 + k]"
    and ra: "raised (run_items opn d (length srcs) c 0 srcs st0) = None"
    and kc: "c = None \<longrightarrow> k = length srcs" by blast
  have run: "FileOperationWorker_run fs0 srcs d opn c
      = (run_items opn d (length srcs) c 0 srcs st0)\<lparr>events :=
           events (run_items opn d (length srcs) c 0 srcs st0) @
             [FResult (success_count (run_items opn d (length srcs) c 0 srcs st0))
                (errors (run_items opn d (length srcs) c 0 srcs st0)) opn, FFinished]\<rparr>"
    using assms ra by (simp add: FileOperationWorker_run_def Let_def st0_def)
  have e0: "events st0 = []" by (simp add: st0_def)
  show ?thesis
    by (rule exI [of _ k]) (simp add: run ev ra k kc e0)
qed



lemma resolve_conflict_least:
  "if \<not> path_exists fs dp then resolve_conflict fs d f dp c = dp
   else \<exists>n\<ge>c. resolve_conflict fs d f dp c = path_join d (conflict_name f n)
          \<and> \<not> path_exists fs (path_join d (conflict_name f n))
          \<and> (\<forall>k. c \<le> k \<and> k < n \<longrightarrow> path_exists fs (path_join d (conflict_name f k)))"
proof (induction fs d f dp c rule: resolve_conflict.induct)
  case (1 fs d f dp c)
  let ?P = "\<lambda>k. path_join d (conflict_name f k)"
  show ?case
  proof (cases "path_exists fs dp")
    case False
    then show ?thesis by (simp add: resolve_conflict.simps)
  next
    case True
    then have step: "resolve_conflict fs d f dp c = resolve_conflict fs d f (?P c) (c + 1)"
      by (subst resolve_conflict.simps) simp
    show ?thesis
    proof (cases "path_exists fs (?P c)")
      case False
      with "1.IH" [OF True] have "resolve_conflict fs d f (?P c) (c + 1) = ?P c" by simp
      with False True step show ?thesis by (auto intro!: exI [of _ c])
    next
      case ex: True
      with "1.IH" [OF True] obtain n where n: "c + 1 \<le> n"
        and r: "resolve_conflict fs d f (?P c) (c + 1) = ?P n"
        and free: "\<not> path_exists fs (?P n)"
        and taken: "\<forall>k. c + 1 \<le> k \<and> k < n \<longrightarrow> path_exists fs (?P k)" by auto
      have "\<forall>k. c \<le> k \<and> k < n \<longrightarrow> path_exists fs (?P k)"
      proof (intro allI impI)
        fix k assume k: "c \<le> k \<and> k < n"
        show "path_exists fs (?P k)"
        proof (cases "k = c")
          case True
          with ex show ?thesis by simp
        next
          case False
          with k taken show ?thesis by simp
        qed
      qed
      with n r free True step show ?thesis by (auto intro!: exI [of _ n])
    qed
  qed
qed

lemma conflict_name_ext:
  "conflict_name f n = fst (splitext f) @ ''_copy_'' @ str_nat n @ snd (splitext f)"
  by (auto simp: conflict_name_def splitext_def Let_def)

text \<open>
  C10: with no source path and a destination that is a directory, the run emits the
  result (0, [], operation) and then finished, and nothing else: no progress and no error
  signal. The percentage of an item, which divides by the number of items and would raise
  \<^verbatim>\<open>ZeroDivisionError\<close> here, is not computed: no exception leaves the run, and \<^verbatim>\<open>shutil\<close> is
  not called.
\<close>

theorem C10_empty_sources:
  "path_isdir fs0 destination_dir \<Longrightarrow>
     events (FileOperationWorker_run fs0 [] destination_dir operation c)
       = [FResult 0 [] operation, FFinished]
     \<and> raised (FileOperationWorker_run fs0 [] destination_dir operation c) = None
     \<and> calls (FileOperationWorker_run fs0 [] destination_dir operation c) = []
     \<and> percent 1 (length ([] :: string list)) = Inl ZeroDivisionError"
  by (simp add: FileOperationWorker_run_def percent_def)

theorem C10_empty_sources_witness:
  "path_isdir \<lparr>nodes = [(''/dst'', Dir)], failing = []\<rparr> ''/dst''
   \<and> events (FileOperationWorker_run \<lparr>nodes = [(''/dst'', Dir)], failing = []\<rparr> [] ''/dst'' Move None)
       = [FResult 0 [] Move, FFinished]"
proof -
  have h: "path_isdir \<lparr>nodes = [(''/dst'', Dir)], failing = []\<rparr> ''/dst''"
    by (simp add: path_isdir_def)
  show ?thesis using h C10_empty_sources [OF h, of Move None] by simp
qed




lemma self_containment_guard:
  "path_exists (filesys st) src \<Longrightarrow> self_or_subdirectory src d \<Longrightarrow> 0 < n \<Longrightarrow>
   process_item opn d n i src st
     = st\<lparr>errors := errors st @
              [basename src @ '': Cannot '' @ op_name opn @ '' to itself or subdirectory''],
          events := events st @ [FProgress (percent_value (i + 1) n)]\<rparr>"
  by (simp add: process_item_def progress_in_try_eq)

text \<open>
  C7: when the destination directory has an entry with the base name of the source, the
  name tried for \<^verbatim>\<open>counter = n\<close> is the base name with \<^verbatim>\<open>_copy_n\<close> put before its
  extension, and the loop returns the first of these names, from \<open>n = 1\<close> upwards, that
  is free. Copying \<^verbatim>\<open>a.txt\<close> twice in one run into a directory that has \<^verbatim>\<open>a.txt\<close> writes
  \<^verbatim>\<open>a_copy_1.txt\<close> and then \<^verbatim>\<open>a_copy_2.txt\<close>.
\<close>

theorem C7_conflict_renaming:
  "(path_exists fs0 (path_join d f) \<longrightarrow>
      (\<exists>n\<ge>1. resolve_conflict fs0 d f (path_join d f) 1 = path_join d (conflict_name f n)
         \<and> \<not> path_exists fs0 (path_join d (conflict_name f n))
         \<and> (\<forall>k. 1 \<le> k \<and> k < n \<longrightarrow> path_exists fs0 (path_join d (conflict_name f k)))))
   \<and> conflict_name f m = fst (splitext f) @ ''_copy_'' @ str_nat m @ snd (splitext f)
   \<and> calls (FileOperationWorker_run
              \<lparr>nodes = [(''/dst'', Dir), (''/dst/a.txt'', File), (''/src/a.txt'', File)],
               failing = []\<rparr>
              [''/src/a.txt'', ''/src/a.txt''] ''/dst'' Copy None)
       = [Copy2 ''/src/a.txt'' ''/dst/a_copy_1.txt'', Copy2 ''/src/a.txt'' ''/dst/a_copy_2.txt'']
   \<and> map fst (nodes (filesys (FileOperationWorker_run
              \<lparr>nodes = [(''/dst'', Dir), (''/dst/a.txt'', File), (''/src/a.txt'', File)],
               failing = []\<rparr>
              [''/src/a.txt'', ''/src/a.txt''] ''/dst'' Copy None)))
       = [''/dst'', ''/dst/a.txt'', ''/src/a.txt'', ''/dst/a_copy_1.txt'', ''/dst/a_copy_2.txt'']"
proof (intro conjI)
  show "path_exists fs0 (path_join d f) \<longrightarrow>
      (\<exists>n\<ge>1. resolve_conflict fs0 d f (path_join d f) 1 = path_join d (conflict_name f n)
         \<and> \<not> path_exists fs0 (path_join d (conflict_name f n))
         \<and> (\<forall>k. 1 \<le> k \<and> k < n \<longrightarrow> path_exists fs0 (path_join d (conflict_name f k))))"
    using resolve_conflict_least [of fs0 "path_join d f" d f 1] by (simp split: if_splits)
  show "conflict_name f m = fst (splitext f) @ ''_copy_'' @ str_nat m @ snd (splitext f)"
    by (rule conflict_name_ext)
  show "calls (FileOperationWorker_run
              \<lparr>nodes = [(''/dst'', Dir), (''/dst/a.txt'', File), (''/src/a.txt'', File)],
               failing = []\<rparr>
              [''/src/a.txt'', ''/src/a.txt''] ''/dst'' Copy None)
       = [Copy2 ''/src/a.txt'' ''/dst/a_copy_1.txt'', Copy2 ''/src/a.txt'' ''/dst/a_copy_2.txt'']"
    by code_simp
  show "map fst (nodes (filesys (FileOperationWorker_run
              \<lparr>nodes = [(''/dst'', Dir), (''/dst/a.txt'', File), (''/src/a.txt'', File)],
               failing = []\<rparr>
              [''/src/a.txt'', ''/src/a.txt''] ''/dst'' Copy None)))
       = [''/dst'', ''/dst/a.txt'', ''/src/a.txt'', ''/dst/a_copy_1.txt'', ''/dst/a_copy_2.txt'']"
    by code_simp
qed

theorem C7_conflict_renaming_witness:
  "path_exists \<lparr>nodes = [(''/dst'', Dir), (''/dst/a.txt'', File)], failing = []\<rparr>
     (path_join ''/dst'' ''a.txt'')
   \<and> resolve_conflict \<lparr>nodes = [(''/dst'', Dir), (''/dst/a.txt'', File)], failing = []\<rparr>
       ''/dst'' ''a.txt'' (path_join ''/dst'' ''a.txt'') 1 = ''/dst/a_copy_1.txt''"
proof -
  let ?fs = "\<lparr>nodes = [(''/dst'', Dir), (''/dst/a.txt'', File)], failing = []\<rparr>"
  let ?P = "\<lambda>k. path_join ''/dst'' (conflict_name ''a.txt'' k)"
  have h: "path_exists ?fs (path_join ''/dst'' ''a.txt'')" by code_simp
  have free: "\<not> path_exists ?fs (?P 1)" by code_simp
  have one: "?P 1 = ''/dst/a_copy_1.txt''" by code_simp
  from C7_conflict_renaming [of ?fs "''/dst''" "''a.txt''" 1] h
  obtain n where n: "1 \<le> n"
    and r: "resolve_conflict ?fs ''/dst'' ''a.txt'' (path_join ''/dst'' ''a.txt'') 1 = ?P n"
    and taken: "\<forall>k. 1 \<le> k \<and> k < n \<longrightarrow> path_exists ?fs (?P k)" by blast
  have "n = 1"
  proof (rule ccontr)
    assume "n \<noteq> 1"
    with n have "1 \<le> (1::nat) \<and> 1 < n" by simp
    with taken have "path_exists ?fs (?P 1)" by blast
    with free show False by simp
  qed
  with r one have "resolve_conflict ?fs ''/dst'' ''a.txt'' (path_join ''/dst'' ''a.txt'') 1
                     = ''/dst/a_copy_1.txt''" by simp
  with h show ?thesis by blast
qed

text \<open>
  C1, at a destination that is not a directory: the run emits the error signal and
  returns. No finished signal follows, so \<^verbatim>\<open>file_operation_finished\<close> ("Called when file
  operation worker finishes") never runs for it.
\<close>

theorem C1_invalid_destination_no_finished:
  "events (FileOperationWorker_run \<lparr>nodes = [(''/src/a.txt'', File)], failing = []\<rparr>
             [''/src/a.txt''] ''/missing'' Copy None)
     = [FError ''Copy Error'' ''Invalid destination directory.'']"
  by code_simp


subsection \<open>\<^verbatim>\<open>SearchWorker\<close>: the limits and the progress signals\<close>















lemma search_run_finished: "last (SearchWorker_run env root_path query0 c) = SFinished"
  by (simp add: SearchWorker_run_def Let_def)




subsection \<open>\<^verbatim>\<open>DuplicateFinderWorker\<close>: what each step emits\<close>

lemma dup_progress_append: "dup_progress (xs @ ys) = dup_progress xs @ dup_progress ys"
  by (induction xs rule: dup_progress.induct) simp_all

lemma dup_results_append: "dup_results (xs @ ys) = dup_results xs @ dup_results ys"
  by (induction xs rule: dup_results.induct) simp_all

lemma later_view_polls: "later_view (st\<lparr>dup_polls := p\<rparr>) = later_view st"
  by (simp add: later_view_def)

lemma later_view_status:
  "later_view (st\<lparr>dup_events := dup_events st @ [DStatus s]\<rparr>) = later_view st"
  by (simp add: later_view_def dup_progress_append dup_results_append)

lemma later_view_polls_status:
  "later_view (st\<lparr>dup_polls := p, dup_events := dup_events st @ [DStatus s]\<rparr>) = later_view st"
  by (simp add: later_view_def dup_progress_append dup_results_append)

lemma scan_file_view: "later_view (scan_file env m r f st) = later_view st"
  by (simp add: scan_file_def Let_def later_view_def dup_progress_append dup_results_append
      split: option.splits)

lemma scan_files_view: "later_view (scan_files env m c r fs st) = later_view st"
  by (induction fs arbitrary: st) (simp_all add: scan_file_view later_view_polls)

lemma scan_walk_view: "later_view (scan_walk env m c walk st) = later_view st"
proof (induction walk arbitrary: st)
  case Nil
  then show ?case by simp
next
  case (Cons t walk)
  obtain r ds fs where t: "t = (r, ds, fs)" by (cases t)
  show ?case by (simp add: t Cons.IH scan_files_view later_view_polls)
qed

lemma scan_roots_view: "later_view (scan_roots env m c roots st) = later_view st"
  by (induction roots arbitrary: st)
    (simp_all add: Let_def scan_walk_view later_view_polls later_view_polls_status
      split: option.splits)

lemma scan_end_view: "later_view (scan_end env roots m c) = ([], [], None, [], 0)"
  unfolding scan_end_def scan_roots_view by (simp add: later_view_def)

lemma hash_file_results:
  "dup_results (dup_events (hash_file env c n f st)) = dup_results (dup_events st)"
  by (simp add: hash_file_def Let_def dup_results_append split: prod.splits option.splits sum.splits)

lemma hash_file_raised: "0 < n \<Longrightarrow> dup_raised (hash_file env c n f st) = dup_raised st"
  by (simp add: hash_file_def Let_def percent_def split: prod.splits option.splits)

lemma hash_file_processed:
  "processed_files (hash_file env c n f st) = processed_files st + 1"
  by (simp add: hash_file_def Let_def split: prod.splits option.splits sum.splits)

lemma hash_file_progress:
  "0 < n \<Longrightarrow> dup_progress (dup_events (hash_file env c n f st))
     = dup_progress (dup_events st)
       @ (if (processed_files st + 1) mod 10 = 0
          then [percent_value (processed_files st + 1) n] else [])"
  by (simp add: hash_file_def Let_def percent_def dup_progress_append
      split: prod.splits option.splits)

lemma hash_inv_polls: "hash_inv n (st\<lparr>dup_polls := p\<rparr>) = hash_inv n st"
  by (simp add: hash_inv_def)

lemma hash_file_inv:
  assumes "0 < n" and "hash_inv n st"
  shows "hash_inv n (hash_file env c n f st)"
proof -
  let ?p = "processed_files st"
  from assms(2) have ra: "dup_raised st = None" and re: "dup_results (dup_events st) = []"
    and so: "sorted (dup_progress (dup_events st))"
    and le: "\<forall>v\<in>set (dup_progress (dup_events st)). v \<le> percent_value ?p n"
    by (simp_all add: hash_inv_def list_all_iff)
  have mono: "percent_value ?p n \<le> percent_value (?p + 1) n"
    by (rule percent_value_mono) simp
  from le mono have le': "\<forall>v\<in>set (dup_progress (dup_events st)). v \<le> percent_value (?p + 1) n"
    by fastforce
  show ?thesis
    unfolding hash_inv_def
    using ra re so le'
    by (simp add: hash_file_raised [OF assms(1)] hash_file_results hash_file_processed
        hash_file_progress [OF assms(1)] list_all_iff sorted_append)
qed

lemma hash_files_inv:
  "0 < n \<Longrightarrow> hash_inv n st \<Longrightarrow>
   hash_inv n (hash_files env c n paths st)
   \<and> processed_files (hash_files env c n paths st) \<le> processed_files st + length paths"
proof (induction paths arbitrary: st)
  case Nil
  then show ?case by simp
next
  case (Cons f paths)
  show ?case
  proof (cases "cancelled c (dup_polls st)")
    case True
    with Cons.prems show ?thesis by (simp add: hash_inv_polls)
  next
    case False
    define st' where "st' = hash_file env c n f (st\<lparr>dup_polls := dup_polls st + 1\<rparr>)"
    have inv: "hash_inv n st'"
      unfolding st'_def using Cons.prems by (intro hash_file_inv) (simp_all add: hash_inv_polls)
    then have ra: "dup_raised st' = None" by (simp add: hash_inv_def)
    have pr: "processed_files st' = processed_files st + 1"
      by (simp add: st'_def hash_file_processed)
    have run: "hash_files env c n (f # paths) st = hash_files env c n paths st'"
      using False ra by (simp add: st'_def Let_def)
    from Cons.IH [OF Cons.prems(1) inv] pr show ?thesis unfolding run by simp
  qed
qed

lemma hash_size_groups_inv:
  "0 < n \<Longrightarrow> hash_inv n st \<Longrightarrow>
   hash_inv n (hash_size_groups env c n groups st)
   \<and> processed_files (hash_size_groups env c n groups st)
       \<le> processed_files st + potential_count groups"
proof (induction groups arbitrary: st)
  case Nil
  then show ?case by (simp add: potential_count_def)
next
  case (Cons g groups)
  obtain sz paths where g: "g = (sz, paths)" by (cases g)
  have pc: "potential_count (g # groups)
              = (if length paths > 1 then length paths else 0) + potential_count groups"
    by (simp add: potential_count_def g)
  show ?case
  proof (cases "cancelled c (dup_polls st)")
    case True
    with Cons.prems show ?thesis by (simp add: g hash_inv_polls)
  next
    case False
    define st0 where "st0 = st\<lparr>dup_polls := dup_polls st + 1\<rparr>"
    define st' where "st' = (if length paths > 1 then hash_files env c n paths st0 else st0)"
    have inv0: "hash_inv n st0" using Cons.prems(2) by (simp add: st0_def hash_inv_polls)
    have inv: "hash_inv n st'"
      and pr: "processed_files st'
                 \<le> processed_files st + (if length paths > 1 then length paths else 0)"
      using hash_files_inv [OF Cons.prems(1) inv0, of env c paths] inv0
      by (simp_all add: st'_def st0_def)
    from inv have ra: "dup_raised st' = None" by (simp add: hash_inv_def)
    have run: "hash_size_groups env c n (g # groups) st = hash_size_groups env c n groups st'"
      using False ra by (cases "length paths > 1") (simp_all add: g st'_def st0_def Let_def)
    from Cons.IH [OF Cons.prems(1) inv] pr show ?thesis unfolding run pc by simp
  qed
qed

lemma hash_end_inv:
  assumes "potential_count (size_groups (scan_end env roots m c)) \<noteq> 0"
  shows "dup_raised (hash_end env roots m c) = None"
    and "dup_results (dup_events (hash_end env roots m c)) = []"
    and "sorted (dup_progress (dup_events (hash_end env roots m c)))"
    and "\<forall>v\<in>set (dup_progress (dup_events (hash_end env roots m c))). v \<le> 100"
proof -
  let ?st1 = "scan_end env roots m c"
  let ?n = "potential_count (size_groups ?st1)"
  let ?st2 = "?st1\<lparr>dup_polls := dup_polls ?st1 + 1,
                    dup_events := dup_events ?st1 @ [found_status ?st1, checking_status ?st1]\<rparr>"
  from assms have n: "0 < ?n" by simp
  from scan_end_view [of env roots m c]
  have v: "dup_progress (dup_events ?st1) = []" "dup_results (dup_events ?st1) = []"
    "dup_raised ?st1 = None" "processed_files ?st1 = 0"
    by (simp_all add: later_view_def)
  have inv2: "hash_inv ?n ?st2"
    using v by (simp add: hash_inv_def dup_progress_append dup_results_append
        found_status_def checking_status_def)
  have p2: "processed_files ?st2 = 0" using v by simp
  from hash_size_groups_inv [OF n inv2, of env c "size_groups ?st1"] p2
  have inv: "hash_inv ?n (hash_end env roots m c)"
    and pr: "processed_files (hash_end env roots m c) \<le> ?n"
    by (simp_all add: hash_end_def Let_def)
  from inv show "dup_raised (hash_end env roots m c) = None"
    and "dup_results (dup_events (hash_end env roots m c)) = []"
    and "sorted (dup_progress (dup_events (hash_end env roots m c)))"
    by (simp_all add: hash_inv_def)
  from inv have "\<forall>v\<in>set (dup_progress (dup_events (hash_end env roots m c))).
                   v \<le> percent_value (processed_files (hash_end env roots m c)) ?n"
    by (simp add: hash_inv_def list_all_iff)
  moreover have "percent_value (processed_files (hash_end env roots m c)) ?n \<le> 100"
    using pr by (rule percent_value_le_100)
  ultimately show "\<forall>v\<in>set (dup_progress (dup_events (hash_end env roots m c))). v \<le> 100"
    by fastforce
qed

lemma dup_run_cases:
  "DuplicateFinderWorker_run env roots m c =
     (let st1 = scan_end env roots m c; st3 = hash_end env roots m c
      in if cancelled c (dup_polls st1)
         then st1\<lparr>dup_polls := dup_polls st1 + 1, dup_events := dup_events st1 @ [DFinished]\<rparr>
         else if potential_count (size_groups st1) = 0
         then st1\<lparr>dup_polls := dup_polls st1 + 1,
                  dup_events := dup_events st1 @
                    [found_status st1, DResult [] 0, DProgress 100, DFinished]\<rparr>
         else if dup_raised st3 \<noteq> None then st3
         else if cancelled c (dup_polls st3)
         then st3\<lparr>dup_polls := dup_polls st3 + 1, dup_events := dup_events st3 @ [DFinished]\<rparr>
         else st3\<lparr>dup_polls := dup_polls st3 + 1,
                  dup_events := dup_events st3 @
                    [DResult (fst (assemble env (hash_groups st3) ([], 0)))
                       (snd (assemble env (hash_groups st3) ([], 0))),
                     DProgress 100, DFinished]\<rparr>)"
  by (simp add: DuplicateFinderWorker_run_def scan_end_def hash_end_def Let_def
      found_status_def checking_status_def case_prod_beta cong: if_cong)

lemma dup_run_outcomes:
  fixes env roots m c
  defines "st1 \<equiv> scan_end env roots m c"
    and "st3 \<equiv> hash_end env roots m c"
    and "run \<equiv> DuplicateFinderWorker_run env roots m c"
  shows "(cancelled c (dup_polls st1) \<and> dup_polls run = dup_polls st1 + 1
          \<and> dup_events run = dup_events st1 @ [DFinished])
       \<or> (\<not> cancelled c (dup_polls st1) \<and> potential_count (size_groups st1) = 0
          \<and> dup_polls run = dup_polls st1 + 1 \<and> hash_groups run = []
          \<and> dup_events run = dup_events st1 @
               [found_status st1, DResult [] 0, DProgress 100, DFinished])
       \<or> (\<not> cancelled c (dup_polls st1) \<and> potential_count (size_groups st1) \<noteq> 0
          \<and> cancelled c (dup_polls st3) \<and> dup_polls run = dup_polls st3 + 1
          \<and> dup_events run = dup_events st3 @ [DFinished])
       \<or> (\<not> cancelled c (dup_polls st1) \<and> potential_count (size_groups st1) \<noteq> 0
          \<and> \<not> cancelled c (dup_polls st3) \<and> dup_polls run = dup_polls st3 + 1
          \<and> hash_groups run = hash_groups st3
          \<and> dup_events run = dup_events st3 @
               [DResult (fst (assemble env (hash_groups st3) ([], 0)))
                  (snd (assemble env (hash_groups st3) ([], 0))),
                DProgress 100, DFinished])"
proof -
  have h1: "hash_groups st1 = []"
    using scan_end_view [of env roots m c] by (simp add: later_view_def st1_def)
  have r3: "potential_count (size_groups st1) \<noteq> 0 \<Longrightarrow> dup_raised st3 = None"
    unfolding st1_def st3_def by (rule hash_end_inv)
  show ?thesis
    using h1 r3 unfolding run_def dup_run_cases Let_def st1_def [symmetric] st3_def [symmetric]
    by (cases "cancelled c (dup_polls st1)"; cases "potential_count (size_groups st1) = 0";
        cases "cancelled c (dup_polls st3)") simp_all
qed

lemma dup_run_raised: "dup_raised (DuplicateFinderWorker_run env roots m c) = None"
proof -
  have r1: "dup_raised (scan_end env roots m c) = None"
    using scan_end_view [of env roots m c] by (simp add: later_view_def)
  have r3: "potential_count (size_groups (scan_end env roots m c)) \<noteq> 0
              \<Longrightarrow> dup_raised (hash_end env roots m c) = None"
    by (rule hash_end_inv)
  show ?thesis
    unfolding dup_run_cases Let_def using r1 r3 by auto
qed


lemma assemble_emitted:
  "assemble env groups (gs0, w0)
     = (gs0 @ emitted_groups env groups,
        w0 + sum_list (map wasted_space (emitted_groups env groups)))"
proof (induction groups arbitrary: gs0 w0)
  case Nil
  then show ?case by (simp add: emitted_groups_def map_filter_simps)
next
  case (Cons hg groups)
  obtain h paths where hg: "hg = (h, paths)" by (cases hg)
  show ?case
    by (cases "assemble_group env h paths")
      (simp_all add: hg Cons.IH emitted_groups_def map_filter_simps)
qed

lemma dup_run_results:
  "r \<in> set (dup_results (dup_events (DuplicateFinderWorker_run env roots m c))) \<Longrightarrow>
   fst r = emitted_groups env (hash_groups (DuplicateFinderWorker_run env roots m c))
   \<and> snd r = sum_list (map wasted_space (fst r))"
proof -
  let ?st1 = "scan_end env roots m c" and ?st3 = "hash_end env roots m c"
  assume r: "r \<in> set (dup_results (dup_events (DuplicateFinderWorker_run env roots m c)))"
  have r1: "dup_results (dup_events ?st1) = []"
    using scan_end_view [of env roots m c] by (simp add: later_view_def)
  have r3: "dup_results (dup_events ?st3) = []" if "potential_count (size_groups ?st1) \<noteq> 0"
    using that by (rule hash_end_inv)
  from dup_run_outcomes [of c env roots m] r show ?thesis
    using r1 r3
    by (elim disjE conjE)
      (auto simp: dup_results_append found_status_def assemble_emitted emitted_groups_def
        map_filter_simps)
qed

lemma set_map_filter_iff: "y \<in> set (List.map_filter f xs) \<longleftrightarrow> (\<exists>x\<in>set xs. f x = Some y)"
  by (induction xs) (auto split: option.splits)

lemma emitted_sound:
  "g \<in> set (emitted_groups env groups) \<Longrightarrow>
   \<exists>paths. (hash g, paths) \<in> set groups \<and> 1 < length paths
     \<and> gfiles g = sort_by_mtime env paths
     \<and> d_getsize env (hd (gfiles g)) = Some (gsize g)
     \<and> wasted_space g = gsize g * (int (gcount g) - 1)
     \<and> gcount g = length (gfiles g)"
proof -
  assume "g \<in> set (emitted_groups env groups)"
  then obtain h paths where m: "(h, paths) \<in> set groups" and l: "1 < length paths"
    and a: "assemble_group env h paths = Some g"
    by (auto simp: emitted_groups_def set_map_filter_iff split: if_splits)
  from a obtain s where s: "d_getsize env (hd (sort_by_mtime env paths)) = Some s"
    and g: "g = \<lparr>hash = h, gfiles = sort_by_mtime env paths, gsize = s,
                 wasted_space = s * (int (length (sort_by_mtime env paths)) - 1),
                 gcount = length (sort_by_mtime env paths)\<rparr>"
    by (auto simp: assemble_group_def Let_def split: option.splits)
  from m l s show ?thesis by (intro exI [of _ paths]) (simp add: g)
qed

lemma emitted_complete:
  "(h, paths) \<in> set groups \<Longrightarrow> 1 < length paths \<Longrightarrow>
   d_getsize env (hd (sort_by_mtime env paths)) \<noteq> None \<Longrightarrow>
   \<exists>g\<in>set (emitted_groups env groups). hash g = h \<and> gfiles g = sort_by_mtime env paths"
proof -
  assume m: "(h, paths) \<in> set groups" and l: "1 < length paths"
    and "d_getsize env (hd (sort_by_mtime env paths)) \<noteq> None"
  then obtain s where s: "d_getsize env (hd (sort_by_mtime env paths)) = Some s" by blast
  define g where "g = \<lparr>hash = h, gfiles = sort_by_mtime env paths, gsize = s,
                 wasted_space = s * (int (length (sort_by_mtime env paths)) - 1),
                 gcount = length (sort_by_mtime env paths)\<rparr>"
  have "assemble_group env h paths = Some g" by (simp add: assemble_group_def Let_def s g_def)
  with m l have "g \<in> set (emitted_groups env groups)"
    by (force simp: emitted_groups_def set_map_filter_iff)
  moreover have "hash g = h \<and> gfiles g = sort_by_mtime env paths" by (simp add: g_def)
  ultimately show ?thesis by blast
qed

lemma sorted_map_hd: "sorted (map f ys) \<Longrightarrow> y \<in> set ys \<Longrightarrow> f (hd ys) \<le> f y"
  by (cases ys) auto

lemma sort_by_mtime_sorted:
  assumes "list_all (\<lambda>x. d_getmtime env x \<noteq> None) paths"
  shows "sorted (map (\<lambda>x. the (d_getmtime env x)) (sort_by_mtime env paths))"
    and "filter (\<lambda>x. the (d_getmtime env x) = k) (sort_by_mtime env paths)
           = filter (\<lambda>x. the (d_getmtime env x) = k) paths"
    and "x \<in> set (sort_by_mtime env paths) \<Longrightarrow>
           the (d_getmtime env (hd (sort_by_mtime env paths))) \<le> the (d_getmtime env x)"
proof -
  let ?mt = "\<lambda>x. the (d_getmtime env x)"
  have e: "sort_by_mtime env paths = sort_key ?mt paths"
    using assms by (simp add: sort_by_mtime_def)
  show s: "sorted (map ?mt (sort_by_mtime env paths))" unfolding e by (rule sorted_sort_key)
  show "filter (\<lambda>x. ?mt x = k) (sort_by_mtime env paths) = filter (\<lambda>x. ?mt x = k) paths"
    unfolding e by (rule sort_key_stable)
  show "x \<in> set (sort_by_mtime env paths) \<Longrightarrow>
          ?mt (hd (sort_by_mtime env paths)) \<le> ?mt x"
    using s by (rule sorted_map_hd)
qed

lemma sort_by_mtime_unreadable:
  "\<not> list_all (\<lambda>x. d_getmtime env x \<noteq> None) paths \<Longrightarrow> sort_by_mtime env paths = paths"
  by (simp add: sort_by_mtime_def)

text \<open>
  C3: a run that has seen the cancellation emits no result signal and ends with finished;
  a run that has not emits one result signal and ends with finished. When step 1 ends
  uncancelled with no file that shares its size, the run emits the result ([], 0), then
  progress 100 and finished. When step 1 ends uncancelled with such files and the
  cancellation is seen in step 2, the run emits finished right after the signals of
  step 2, none of which is a result.
\<close>

theorem C3_cancelled_no_result:
  "(saw_cancel c (dup_polls (DuplicateFinderWorker_run env roots m c)) \<longrightarrow>
      dup_results (dup_events (DuplicateFinderWorker_run env roots m c)) = []
      \<and> last (dup_events (DuplicateFinderWorker_run env roots m c)) = DFinished)
   \<and> (\<not> saw_cancel c (dup_polls (DuplicateFinderWorker_run env roots m c)) \<longrightarrow>
      length (dup_results (dup_events (DuplicateFinderWorker_run env roots m c))) = 1
      \<and> last (dup_events (DuplicateFinderWorker_run env roots m c)) = DFinished)
   \<and> (\<not> cancelled c (dup_polls (scan_end env roots m c))
       \<and> potential_count (size_groups (scan_end env roots m c)) = 0 \<longrightarrow>
      dup_events (DuplicateFinderWorker_run env roots m c)
        = dup_events (scan_end env roots m c)
          @ [found_status (scan_end env roots m c), DResult [] 0, DProgress 100, DFinished])
   \<and> (\<not> cancelled c (dup_polls (scan_end env roots m c))
       \<and> potential_count (size_groups (scan_end env roots m c)) \<noteq> 0
       \<and> saw_cancel c (dup_polls (DuplicateFinderWorker_run env roots m c)) \<longrightarrow>
      dup_events (DuplicateFinderWorker_run env roots m c)
        = dup_events (hash_end env roots m c) @ [DFinished]
      \<and> dup_results (dup_events (hash_end env roots m c)) = [])"
proof -
  let ?st1 = "scan_end env roots m c" and ?st3 = "hash_end env roots m c"
  have r1: "dup_results (dup_events ?st1) = []"
    using scan_end_view [of env roots m c] by (simp add: later_view_def)
  have r3: "dup_results (dup_events ?st3) = []" if "potential_count (size_groups ?st1) \<noteq> 0"
    using that by (rule hash_end_inv)
  have sc: "saw_cancel c (Suc n) \<longleftrightarrow> cancelled c n" for n
    by (simp add: saw_cancel_def cancelled_def less_Suc_eq_le split: option.splits)
  from dup_run_outcomes [of c env roots m] show ?thesis
    using r1 r3
    by (elim disjE conjE) (simp_all add: sc dup_results_append found_status_def)
qed

theorem C3_cancelled_no_result_witness:
  "saw_cancel (Some 12) (dup_polls (DuplicateFinderWorker_run duplicates_os [''/r''] 1 (Some 12)))
   \<and> dup_results (dup_events (DuplicateFinderWorker_run duplicates_os [''/r''] 1 (Some 12))) = []
   \<and> last (dup_events (DuplicateFinderWorker_run duplicates_os [''/r''] 1 (Some 12))) = DFinished
   \<and> \<not> saw_cancel None (dup_polls (DuplicateFinderWorker_run duplicates_os [''/r''] 6 None))
   \<and> dup_events (DuplicateFinderWorker_run duplicates_os [''/r''] 6 None)
       = [DStatus ''Scanning files...'', DStatus ''Found 1 files, checking for duplicates...'',
          DResult [] 0, DProgress 100, DFinished]"
proof -
  have h: "saw_cancel (Some 12)
             (dup_polls (DuplicateFinderWorker_run duplicates_os [''/r''] 1 (Some 12)))"
    by code_simp
  have e: "dup_events (DuplicateFinderWorker_run duplicates_os [''/r''] 6 None)
       = [DStatus ''Scanning files...'', DStatus ''Found 1 files, checking for duplicates...'',
          DResult [] 0, DProgress 100, DFinished]"
    by code_simp
  have n: "\<not> saw_cancel None (dup_polls (DuplicateFinderWorker_run duplicates_os [''/r''] 6 None))"
    by (simp add: saw_cancel_def)
  from C3_cancelled_no_result [of "Some 12" duplicates_os "[''/r'']" 1] h
  have "dup_results (dup_events (DuplicateFinderWorker_run duplicates_os [''/r''] 1 (Some 12))) = []
   \<and> last (dup_events (DuplicateFinderWorker_run duplicates_os [''/r''] 1 (Some 12))) = DFinished"
    by blast
  with h e n show ?thesis by blast
qed



text \<open>
  C5, as the code has it: every emitted group comes from a hash group of two or more
  files. When all modification times of the hash group can be read, the files of the
  group are the hash group sorted by modification time, files with equal times in their
  order of discovery, so the first file is not newer than any other; when one cannot be
  read, the files are in their order of discovery. In both cases the group is emitted
  when the size of its first file can be read, and dropped when it cannot.
\<close>

theorem C5_group_order:
  "\<forall>r\<in>set (dup_results (dup_events (DuplicateFinderWorker_run env roots m c))).
     (\<forall>g\<in>set (fst r).
        \<exists>paths. (hash g, paths) \<in> set (hash_groups (DuplicateFinderWorker_run env roots m c))
          \<and> 1 < length paths
          \<and> d_getsize env (hd (gfiles g)) = Some (gsize g)
          \<and> (list_all (\<lambda>x. d_getmtime env x \<noteq> None) paths \<longrightarrow>
               gfiles g = sort_key (\<lambda>x. the (d_getmtime env x)) paths
               \<and> sorted (map (\<lambda>x. the (d_getmtime env x)) (gfiles g))
               \<and> (\<forall>k. filter (\<lambda>x. the (d_getmtime env x) = k) (gfiles g)
                        = filter (\<lambda>x. the (d_getmtime env x) = k) paths)
               \<and> (\<forall>x\<in>set (gfiles g).
                     the (d_getmtime env (hd (gfiles g))) \<le> the (d_getmtime env x)))
          \<and> (\<not> list_all (\<lambda>x. d_getmtime env x \<noteq> None) paths \<longrightarrow> gfiles g = paths))
     \<and> (\<forall>hp\<in>set (hash_groups (DuplicateFinderWorker_run env roots m c)).
          1 < length (snd hp) \<longrightarrow>
            ((\<exists>g\<in>set (fst r). hash g = fst hp \<and> gfiles g = sort_by_mtime env (snd hp))
             \<longleftrightarrow> d_getsize env (hd (sort_by_mtime env (snd hp))) \<noteq> None))"
proof
  fix r
  let ?run = "DuplicateFinderWorker_run env roots m c"
  let ?readable = "list_all (\<lambda>x. d_getmtime env x \<noteq> None)"
  let ?mt = "\<lambda>x. the (d_getmtime env x)"
  assume r: "r \<in> set (dup_results (dup_events ?run))"
  from dup_run_results [OF r]
  have f: "fst r = emitted_groups env (hash_groups ?run)" by blast
  have sound: "\<exists>paths. (hash g, paths) \<in> set (hash_groups ?run)
          \<and> 1 < length paths
          \<and> d_getsize env (hd (gfiles g)) = Some (gsize g)
          \<and> (?readable paths \<longrightarrow>
               gfiles g = sort_key ?mt paths
               \<and> sorted (map ?mt (gfiles g))
               \<and> (\<forall>k. filter (\<lambda>x. ?mt x = k) (gfiles g) = filter (\<lambda>x. ?mt x = k) paths)
               \<and> (\<forall>x\<in>set (gfiles g). ?mt (hd (gfiles g)) \<le> ?mt x))
          \<and> (\<not> ?readable paths \<longrightarrow> gfiles g = paths)"
    if g: "g \<in> set (fst r)" for g
  proof -
    from g emitted_sound [of g env "hash_groups ?run"] obtain paths
      where p: "(hash g, paths) \<in> set (hash_groups ?run)" "1 < length paths"
        "gfiles g = sort_by_mtime env paths" "d_getsize env (hd (gfiles g)) = Some (gsize g)"
      unfolding f by blast
    have "?readable paths \<longrightarrow>
               gfiles g = sort_key ?mt paths
               \<and> sorted (map ?mt (gfiles g))
               \<and> (\<forall>k. filter (\<lambda>x. ?mt x = k) (gfiles g) = filter (\<lambda>x. ?mt x = k) paths)
               \<and> (\<forall>x\<in>set (gfiles g). ?mt (hd (gfiles g)) \<le> ?mt x)"
      unfolding p(3) using sort_by_mtime_sorted [of env paths]
      by (auto simp: sort_by_mtime_def)
    moreover have "\<not> ?readable paths \<longrightarrow> gfiles g = paths"
      unfolding p(3) by (simp add: sort_by_mtime_unreadable)
    ultimately show ?thesis using p(1,2,4) by blast
  qed
  have emit: "(\<exists>g\<in>set (fst r). hash g = fst hp \<and> gfiles g = sort_by_mtime env (snd hp))
             \<longleftrightarrow> d_getsize env (hd (sort_by_mtime env (snd hp))) \<noteq> None"
    if hp: "hp \<in> set (hash_groups ?run)" and l: "1 < length (snd hp)" for hp
  proof
    assume "\<exists>g\<in>set (fst r). hash g = fst hp \<and> gfiles g = sort_by_mtime env (snd hp)"
    then obtain g where g: "g \<in> set (fst r)" "gfiles g = sort_by_mtime env (snd hp)" by blast
    from sound [OF g(1)] have "d_getsize env (hd (gfiles g)) = Some (gsize g)" by blast
    then show "d_getsize env (hd (sort_by_mtime env (snd hp))) \<noteq> None" by (simp add: g(2))
  next
    assume s: "d_getsize env (hd (sort_by_mtime env (snd hp))) \<noteq> None"
    from hp have "(fst hp, snd hp) \<in> set (hash_groups ?run)" by simp
    from emitted_complete [OF this l s]
    show "\<exists>g\<in>set (fst r). hash g = fst hp \<and> gfiles g = sort_by_mtime env (snd hp)"
      unfolding f .
  qed
  from sound emit
  show "(\<forall>g\<in>set (fst r).
        \<exists>paths. (hash g, paths) \<in> set (hash_groups ?run)
          \<and> 1 < length paths
          \<and> d_getsize env (hd (gfiles g)) = Some (gsize g)
          \<and> (?readable paths \<longrightarrow>
               gfiles g = sort_key ?mt paths
               \<and> sorted (map ?mt (gfiles g))
               \<and> (\<forall>k. filter (\<lambda>x. ?mt x = k) (gfiles g) = filter (\<lambda>x. ?mt x = k) paths)
               \<and> (\<forall>x\<in>set (gfiles g). ?mt (hd (gfiles g)) \<le> ?mt x))
          \<and> (\<not> ?readable paths \<longrightarrow> gfiles g = paths))
     \<and> (\<forall>hp\<in>set (hash_groups ?run).
          1 < length (snd hp) \<longrightarrow>
            ((\<exists>g\<in>set (fst r). hash g = fst hp \<and> gfiles g = sort_by_mtime env (snd hp))
             \<longleftrightarrow> d_getsize env (hd (sort_by_mtime env (snd hp))) \<noteq> None))"
    by blast
qed

theorem C5_group_order_witness:
  "dup_results (dup_events (DuplicateFinderWorker_run duplicates_os [''/r''] 1 None))
     = [([\<lparr>hash = ''h1'', gfiles = [''/r/d/e'', ''/r/d/f'', ''/r/a''], gsize = 5,
           wasted_space = 10, gcount = 3\<rparr>], 10)]
   \<and> hash_groups (DuplicateFinderWorker_run duplicates_os [''/r''] 1 None)
       = [(''h1'', [''/r/a'', ''/r/d/e'', ''/r/d/f'']), (''h2'', [''/r/b''])]
   \<and> list_all (\<lambda>x. d_getmtime duplicates_os x \<noteq> None) [''/r/a'', ''/r/d/e'', ''/r/d/f'']
   \<and> d_getsize duplicates_os (hd [''/r/d/e'', ''/r/d/f'', ''/r/a'']) = Some 5"
proof -
  let ?g = "\<lparr>hash = ''h1'', gfiles = [''/r/d/e'', ''/r/d/f'', ''/r/a''], gsize = 5,
             wasted_space = 10, gcount = 3\<rparr>"
  have e: "dup_results (dup_events (DuplicateFinderWorker_run duplicates_os [''/r''] 1 None))
             = [([?g], 10)]"
    by code_simp
  have hg: "hash_groups (DuplicateFinderWorker_run duplicates_os [''/r''] 1 None)
       = [(''h1'', [''/r/a'', ''/r/d/e'', ''/r/d/f'']), (''h2'', [''/r/b''])]"
    by code_simp
  have rd: "list_all (\<lambda>x. d_getmtime duplicates_os x \<noteq> None) [''/r/a'', ''/r/d/e'', ''/r/d/f'']"
    by code_simp
  from C5_group_order [of duplicates_os "[''/r'']" 1 None]
  have "\<forall>g\<in>set (fst ([?g], 10::int)).
          \<exists>paths. d_getsize duplicates_os (hd (gfiles g)) = Some (gsize g)"
    unfolding e by fastforce
  then have "d_getsize duplicates_os (hd [''/r/d/e'', ''/r/d/f'', ''/r/a'']) = Some 5" by simp
  with e hg rd show ?thesis by blast
qed

text \<open>
  C5 as stated fails where the first file of a hash group was deleted before step 3:
  its modification time cannot be read, the order of discovery is kept, and the group
  is dropped because its size cannot be read either.
\<close>

theorem C5_counterexample:
  "hash_groups (DuplicateFinderWorker_run vanished_os [''/r''] 1 None)
     = [(''h1'', [''/r/a'', ''/r/b''])]
   \<and> \<not> list_all (\<lambda>x. d_getmtime vanished_os x \<noteq> None) [''/r/a'', ''/r/b'']
   \<and> dup_results (dup_events (DuplicateFinderWorker_run vanished_os [''/r''] 1 None))
       = [([], 0)]"
  by code_simp





subsection \<open>The returns that do emit finished\<close>

text \<open>
  Every return of \<^verbatim>\<open>SearchWorker.run\<close> (lemma \<open>search_run_finished\<close>) and of
  \<^verbatim>\<open>DuplicateFinderWorker.run\<close> emits finished last, and so does
  \<^verbatim>\<open>FileOperationWorker.run\<close> when the destination is a directory.
\<close>

lemma fileop_run_finished:
  "path_isdir fs0 d \<Longrightarrow> last (events (FileOperationWorker_run fs0 srcs d opn c)) = FFinished"
  using fileop_run_events [of fs0 d srcs opn c] by auto

lemma dup_run_finished: "last (dup_events (DuplicateFinderWorker_run env roots m c)) = DFinished"
  using dup_run_outcomes [of c env roots m] by (elim disjE conjE) simp_all

end
